theory Spec2Isabelle
  imports Main "HOL-Library.AList"
begin

section \<open>Values, objects and the store\<close>

text \<open>
  A JavaScript value as the program meets it.  Objects and arrays live in a store and are
  handled through their address (\<open>Ref\<close>); two values are the same object exactly when
  they are the same address.  \<open>Unres\<close> is the module's private object
  \<open>UNRESOLVED_LINK\<close>: an object without properties that is compared by identity only
  and lives outside the store of the response.  Numbers are the integers.
\<close>

datatype jv = Undef | Null | Bool bool | Num int | Str string | Ref nat | Unres

datatype cell = CObj "(string \<times> jv) list" | CArr "jv list"

type_synonym heap = "cell list"

datatype err = TypeError | RangeError

text \<open>Sequencing of computations that may throw: the first exception wins.\<close>

definition bnd :: "err + 'a \<Rightarrow> ('a \<Rightarrow> err + 'b) \<Rightarrow> err + 'b" where
  "bnd m f = (case m of Inl e \<Rightarrow> Inl e | Inr x \<Rightarrow> f x)"

section \<open>The URN decoder\<close>

text \<open>
  The regular expression of \<open>getIdsFromUrn\<close> is
  \<open>^(.*):spaces\/([^/]+)(?:\/environments\/([^/]+))?\/entries\/([^/]+)$\<close>.
  The dot matches every character except the line terminators, of which line feed and
  carriage return are characters of the 8-bit \<open>char\<close> type used here.
\<close>

definition lineTerminator :: "char \<Rightarrow> bool" where
  "lineTerminator c = (c = CHR 0x0A \<or> c = CHR 0x0D)"

definition noSlash :: "string \<Rightarrow> bool" where
  "noSlash s = (\<forall>c \<in> set s. c \<noteq> CHR ''/'')"

definition dotStar :: "string \<Rightarrow> bool" where
  "dotStar s = (\<forall>c \<in> set s. \<not> lineTerminator c)"

text \<open>
  What a match of the regular expression is: the subject string is cut into the prefix, the
  space, the optional environment and the entry; the three identifiers are non-empty and
  free of slashes.  The result carries capture groups 2, 3 and 4.
\<close>

definition urnPattern :: "string \<Rightarrow> string \<Rightarrow> string option \<Rightarrow> string \<Rightarrow> bool" where
  "urnPattern s sp env en =
     (sp \<noteq> [] \<and> noSlash sp \<and> en \<noteq> [] \<and> noSlash en \<and>
      (case env of
         None \<Rightarrow> (\<exists>p. dotStar p \<and> s = p @ '':spaces/'' @ sp @ ''/entries/'' @ en)
       | Some e \<Rightarrow> e \<noteq> [] \<and> noSlash e \<and>
           (\<exists>p. dotStar p \<and>
              s = p @ '':spaces/'' @ sp @ ''/environments/'' @ e @ ''/entries/'' @ en)))"

text \<open>The matcher, reading the subject from its end.\<close>

definition stripSuffix :: "string \<Rightarrow> string \<Rightarrow> string option" where
  "stripSuffix suf s =
     (if length suf \<le> length s \<and> drop (length s - length suf) s = suf
      then Some (take (length s - length suf) s) else None)"

definition lastSegment :: "string \<Rightarrow> string" where
  "lastSegment s = rev (takeWhile (\<lambda>c. c \<noteq> CHR ''/'') (rev s))"

definition beforeLastSegment :: "string \<Rightarrow> string" where
  "beforeLastSegment s = rev (dropWhile (\<lambda>c. c \<noteq> CHR ''/'') (rev s))"

definition urnMatch :: "string \<Rightarrow> (string \<times> string option \<times> string) option" where
  "urnMatch s =
     (let en = lastSegment s in
      if en = [] then None else
      case stripSuffix ''/entries/'' (beforeLastSegment s) of
        None \<Rightarrow> None
      | Some r \<Rightarrow>
          let x = lastSegment r in
          if x = [] then None else
          (case stripSuffix '':spaces/'' (beforeLastSegment r) of
             Some p \<Rightarrow> if dotStar p then Some (x, None, en) else None
           | None \<Rightarrow>
               (case stripSuffix ''/environments/'' (beforeLastSegment r) of
                  None \<Rightarrow> None
                | Some q \<Rightarrow>
                    let sp = lastSegment q in
                    if sp = [] then None else
                    (case stripSuffix '':spaces/'' (beforeLastSegment q) of
                       Some p \<Rightarrow> if dotStar p then Some (sp, Some x, en) else None
                     | None \<Rightarrow> None))))"

record ids =
  spaceId :: string
  environmentId :: string
  entryId :: string

text \<open>
  \<open>getIdsFromUrn\<close>: \<open>None\<close> is the \<open>undefined\<close> returned from the \<open>catch\<close> block.  A
  value that is not a string has no callable \<open>match\<close>, the call throws inside the
  \<open>try\<close> block and the exception is caught.  Without a match the destructured array is
  empty, both identifiers are \<open>undefined\<close> and the function throws to its own handler.
\<close>

definition getIdsFromUrn :: "jv \<Rightarrow> ids option" where
  "getIdsFromUrn urn =
     (case urn of
        Str s \<Rightarrow>
          (case urnMatch s of
             None \<Rightarrow> None
           | Some (sp, env, en) \<Rightarrow>
               if sp = [] \<or> en = [] then None
               else Some \<lparr>spaceId = sp,
                          environmentId = (case env of None \<Rightarrow> ''master'' | Some e \<Rightarrow> e),
                          entryId = en\<rparr>)
      | _ \<Rightarrow> None)"

section \<open>Reading and writing the store\<close>

text \<open>
  Addresses are positions in the store.  Every address the program holds was returned by an
  allocation, so the default of \<open>cellAt\<close> for an address outside the store is never
  read by a run that starts from a copied response.
\<close>

definition cellAt :: "heap \<Rightarrow> nat \<Rightarrow> cell" where
  "cellAt h a = (if a < length h then h ! a else CObj [])"

fun truthy :: "jv \<Rightarrow> bool" where
  "truthy Undef = False"
| "truthy Null = False"
| "truthy (Bool b) = b"
| "truthy (Num n) = (n \<noteq> 0)"
| "truthy (Str s) = (s \<noteq> [])"
| "truthy (Ref a) = True"
| "truthy Unres = True"

text \<open>
  The keys of \<open>for (const key in input)\<close>: the field names of an object in its
  enumeration order, the indices of an array.  The field list of an object holds every
  name once.
\<close>

datatype key = Name string | Index nat

fun ownKeys :: "cell \<Rightarrow> key list" where
  "ownKeys (CObj kvs) = map (\<lambda>kv. Name (fst kv)) kvs"
| "ownKeys (CArr vs) = map Index [0..<length vs]"

text \<open>\<open>readKey\<close> is \<open>hasOwnProperty\<close> together with the read: \<open>None\<close> when the key is not an own property.\<close>

fun readKey :: "cell \<Rightarrow> key \<Rightarrow> jv option" where
  "readKey (CObj kvs) (Name k) = map_of kvs k"
| "readKey (CArr vs) (Index i) = (if i < length vs then Some (vs ! i) else None)"
| "readKey (CObj kvs) (Index i) = None"
| "readKey (CArr vs) (Name k) = None"

text \<open>
  \<open>input[key] = value\<close>.  An assignment to a field that is gone adds it at the end; an
  assignment behind the end of an array extends it with holes, which read as \<open>undefined\<close>.
  The keys the walker writes come from \<open>ownKeys\<close> of the same cell, so a name never
  meets an array there, nor an index an object; those two cases leave the cell as it is.
\<close>

fun writeKey :: "cell \<Rightarrow> key \<Rightarrow> jv \<Rightarrow> cell" where
  "writeKey (CObj kvs) (Name k) v = CObj (AList.update k v kvs)"
| "writeKey (CArr vs) (Index i) v =
     (if i < length vs then CArr (vs[i := v])
      else CArr (vs @ replicate (i - length vs) Undef @ [v]))"
| "writeKey (CObj kvs) (Index i) v = CObj kvs"
| "writeKey (CArr vs) (Name k) v = CArr vs"

definition store :: "heap \<Rightarrow> nat \<Rightarrow> key \<Rightarrow> jv \<Rightarrow> heap" where
  "store h a k v = h[a := writeKey (cellAt h a) k v]"

text \<open>
  Property reads.  \<open>optp\<close> is \<open>v?.k\<close>; \<open>getp\<close> is \<open>v.k\<close>, which throws on
  \<open>undefined\<close> and \<open>null\<close>.  The program reads the names \<open>sys\<close>, \<open>type\<close>,
  \<open>linkType\<close>, \<open>id\<close>, \<open>urn\<close>, \<open>space\<close>, \<open>environment\<close> and \<open>items\<close>
  only; none of them is a property of a primitive value, of an array or of a prototype.
\<close>

definition readAt :: "heap \<Rightarrow> jv \<Rightarrow> key \<Rightarrow> jv" where
  "readAt h v k =
     (case v of
        Ref a \<Rightarrow> (case readKey (cellAt h a) k of Some x \<Rightarrow> x | None \<Rightarrow> Undef)
      | _ \<Rightarrow> Undef)"

definition optp :: "heap \<Rightarrow> jv \<Rightarrow> string \<Rightarrow> jv" where
  "optp h v k = readAt h v (Name k)"

definition getp :: "heap \<Rightarrow> jv \<Rightarrow> string \<Rightarrow> err + jv" where
  "getp h v k =
     (case v of
        Undef \<Rightarrow> Inl TypeError
      | Null \<Rightarrow> Inl TypeError
      | _ \<Rightarrow> Inr (readAt h v (Name k)))"

text \<open>Following a path of keys from a value, for stating what a run leaves in the store.\<close>

definition pathAt :: "heap \<Rightarrow> jv \<Rightarrow> key list \<Rightarrow> jv" where
  "pathAt h v ks = fold (\<lambda>k x. readAt h x k) ks v"

section \<open>Conversion to strings\<close>

fun digits :: "nat \<Rightarrow> string" where
  "digits n =
     (if n < 10 then [char_of (48 + n)]
      else digits (n div 10) @ [char_of (48 + n mod 10)])"

definition showInt :: "int \<Rightarrow> string" where
  "showInt i = (if i < 0 then CHR ''-'' # digits (nat (- i)) else digits (nat i))"

text \<open>
  The conversion inside a template literal.  How an object or an array is turned into a
  string is the engine's business (\<open>toString\<close> of the prototype, which joins the elements
  of an array); it is the parameter \<open>S\<close> of everything that builds a key.
\<close>

fun tostr :: "(heap \<Rightarrow> nat \<Rightarrow> string) \<Rightarrow> heap \<Rightarrow> jv \<Rightarrow> string" where
  "tostr S h Undef = ''undefined''"
| "tostr S h Null = ''null''"
| "tostr S h (Bool b) = (if b then ''true'' else ''false'')"
| "tostr S h (Num n) = showInt n"
| "tostr S h (Str s) = s"
| "tostr S h (Ref a) = S h a"
| "tostr S h Unres = ''[object Object]''"

text \<open>\<open>s.split(c)\<close> for a separator of one character.\<close>

fun splitOn :: "char \<Rightarrow> string \<Rightarrow> string list" where
  "splitOn c [] = [[]]"
| "splitOn c (x # xs) =
     (if x = c then [] # splitOn c xs
      else (case splitOn c xs of
              [] \<Rightarrow> [[x]]
            | y # ys \<Rightarrow> (x # y) # ys))"

section \<open>The program\<close>

type_synonym tostring = "heap \<Rightarrow> nat \<Rightarrow> string"

type_synonym entityMap = "string \<rightharpoonup> jv"

definition isLink :: "heap \<Rightarrow> jv \<Rightarrow> bool" where
  "isLink h object = (optp h (optp h object ''sys'') ''type'' = Str ''Link'')"

definition isResourceLink :: "heap \<Rightarrow> jv \<Rightarrow> bool" where
  "isResourceLink h object = (optp h (optp h object ''sys'') ''type'' = Str ''ResourceLink'')"

definition globalKey :: "tostring \<Rightarrow> heap \<Rightarrow> jv \<Rightarrow> jv \<Rightarrow> string" where
  "globalKey S h ty i = tostr S h ty @ ''!'' @ tostr S h i"

definition scopedKey :: "tostring \<Rightarrow> heap \<Rightarrow> jv \<Rightarrow> jv \<Rightarrow> jv \<Rightarrow> jv \<Rightarrow> string" where
  "scopedKey S h sp env ty i =
     tostr S h sp @ ''!'' @ tostr S h env @ ''!'' @ tostr S h ty @ ''!'' @ tostr S h i"

definition makeEntityMapKeys :: "tostring \<Rightarrow> heap \<Rightarrow> jv \<Rightarrow> err + string list" where
  "makeEntityMapKeys S h sys =
     bnd (getp h sys ''space'') (\<lambda>space.
     if truthy (optp h space ''sys'') then
       bnd (getp h sys ''environment'') (\<lambda>environment.
       if truthy (optp h environment ''sys'') then
         bnd (getp h sys ''type'') (\<lambda>ty.
         bnd (getp h sys ''id'') (\<lambda>i.
         bnd (getp h (optp h space ''sys'') ''id'') (\<lambda>sid.
         bnd (getp h (optp h environment ''sys'') ''id'') (\<lambda>eid.
         Inr [globalKey S h ty i, scopedKey S h sid eid ty i]))))
       else
         bnd (getp h sys ''type'') (\<lambda>ty.
         bnd (getp h sys ''id'') (\<lambda>i. Inr [globalKey S h ty i])))
     else
       bnd (getp h sys ''type'') (\<lambda>ty.
       bnd (getp h sys ''id'') (\<lambda>i. Inr [globalKey S h ty i])))"

text \<open>
  \<open>lookupInEntityMap\<close> with the four fields of \<open>linkData\<close> as arguments (\<open>entryId\<close>,
  \<open>linkType\<close>, \<open>spaceId\<close>, \<open>environmentId\<close>); a field the
  caller leaves out is \<open>Undef\<close>.  \<open>None\<close> is the \<open>undefined\<close> of \<open>Map.get\<close>.
\<close>

definition lookupInEntityMap ::
  "tostring \<Rightarrow> heap \<Rightarrow> entityMap \<Rightarrow> jv \<Rightarrow> jv \<Rightarrow> jv \<Rightarrow> jv \<Rightarrow> jv option" where
  "lookupInEntityMap S h entityMap entry linkType space environment =
     (if truthy space \<and> truthy environment
      then entityMap (scopedKey S h space environment linkType entry)
      else entityMap (globalKey S h linkType entry))"

text \<open>\<open>x || UNRESOLVED_LINK\<close> for the result \<open>x\<close> of a lookup.\<close>

definition orUnresolved :: "jv option \<Rightarrow> jv" where
  "orUnresolved r = (case r of None \<Rightarrow> Unres | Some v \<Rightarrow> if truthy v then v else Unres)"

text \<open>
  \<open>linkType.split(':')[1]\<close>.  Only a string has a callable \<open>split\<close>; on every other
  value the call throws.  An index behind the end of the array reads \<open>undefined\<close>.
\<close>

definition extractLinkType :: "jv \<Rightarrow> err + jv" where
  "extractLinkType linkType =
     (case linkType of
        Str s \<Rightarrow> Inr (case splitOn CHR '':'' s of _ # x # _ \<Rightarrow> Str x | _ \<Rightarrow> Undef)
      | _ \<Rightarrow> Inl TypeError)"

definition getResolvedLink :: "tostring \<Rightarrow> heap \<Rightarrow> entityMap \<Rightarrow> jv \<Rightarrow> err + jv" where
  "getResolvedLink S h entityMap link =
     bnd (getp h link ''sys'') (\<lambda>sys.
     bnd (getp h sys ''type'') (\<lambda>ty.
     bnd (getp h sys ''linkType'') (\<lambda>linkType.
     if ty = Str ''ResourceLink'' then
       bnd (getp h sys ''urn'') (\<lambda>urn.
       case getIdsFromUrn urn of
         None \<Rightarrow> Inr Unres
       | Some ids \<Rightarrow>
           bnd (extractLinkType linkType) (\<lambda>extractedLinkType.
           Inr (orUnresolved
                  (lookupInEntityMap S h entityMap (Str (entryId ids)) extractedLinkType
                     (Str (spaceId ids)) (Str (environmentId ids))))))
     else
       bnd (getp h sys ''id'') (\<lambda>entry.
       Inr (orUnresolved (lookupInEntityMap S h entityMap entry linkType Undef Undef))))))"

text \<open>
  \<open>cleanUpLinks\<close>: \<open>filter\<close> builds a new array and leaves the old one as it is; the
  fields of an object are deleted in the object itself.  The marker has no fields.
\<close>

definition cleanUpLinks :: "heap \<Rightarrow> jv \<Rightarrow> jv \<times> heap" where
  "cleanUpLinks h input =
     (case input of
        Ref a \<Rightarrow>
          (case cellAt h a of
             CArr vs \<Rightarrow> (Ref (length h), h @ [CArr (filter (\<lambda>val. val \<noteq> Unres) vs)])
           | CObj kvs \<Rightarrow> (Ref a, h[a := CObj (filter (\<lambda>kv. snd kv \<noteq> Unres) kvs)]))
      | _ \<Rightarrow> (input, h))"

text \<open>
  \<open>walkMutate\<close>.  The first argument bounds the depth of the recursion: it is the room on
  the call stack, and a call that finds none throws \<open>RangeError\<close>.  \<open>walkKeys\<close> is the
  \<open>for\<close> loop over the keys the object had when the loop began; a key that is no longer
  an own property when its turn comes is passed over.
\<close>

fun walkMutate ::
    "nat \<Rightarrow> (heap \<Rightarrow> jv \<Rightarrow> bool) \<Rightarrow> (heap \<Rightarrow> jv \<Rightarrow> err + jv) \<Rightarrow> bool \<Rightarrow> heap \<Rightarrow> jv
      \<Rightarrow> err + (jv \<times> heap)"
  and walkKeys ::
    "nat \<Rightarrow> (heap \<Rightarrow> jv \<Rightarrow> bool) \<Rightarrow> (heap \<Rightarrow> jv \<Rightarrow> err + jv) \<Rightarrow> bool \<Rightarrow> heap \<Rightarrow> nat
      \<Rightarrow> key list \<Rightarrow> err + heap"
where
  "walkMutate 0 predicate mutator removeUnresolved h input = Inl RangeError"
| "walkMutate (Suc n) predicate mutator removeUnresolved h input =
     (if predicate h input then bnd (mutator h input) (\<lambda>v. Inr (v, h))
      else
        (case input of
           Ref a \<Rightarrow>
             bnd (walkKeys n predicate mutator removeUnresolved h a (ownKeys (cellAt h a)))
               (\<lambda>h'. Inr (if removeUnresolved then cleanUpLinks h' input else (input, h')))
         | _ \<Rightarrow> Inr (input, h)))"
| "walkKeys n predicate mutator removeUnresolved h a [] = Inr h"
| "walkKeys n predicate mutator removeUnresolved h a (k # ks) =
     (case readKey (cellAt h a) k of
        None \<Rightarrow> walkKeys n predicate mutator removeUnresolved h a ks
      | Some x \<Rightarrow>
          bnd (walkMutate n predicate mutator removeUnresolved h x)
            (\<lambda>r. walkKeys n predicate mutator removeUnresolved (store (snd r) a k (fst r)) a ks))"

definition normalizeLink :: "tostring \<Rightarrow> entityMap \<Rightarrow> bool \<Rightarrow> heap \<Rightarrow> jv \<Rightarrow> err + jv" where
  "normalizeLink S entityMap removeUnresolved h link =
     bnd (getResolvedLink S h entityMap link) (\<lambda>resolvedLink.
     if resolvedLink = Unres then Inr (if removeUnresolved then resolvedLink else link)
     else Inr resolvedLink)"

text \<open>
  \<open>makeEntryObject\<close>: \<open>None\<close> stands for entry points that are not an array.  The
  object of the entry points is a new one.  Only objects are passed as \<open>item\<close>.
\<close>

definition makeEntryObject :: "heap \<Rightarrow> jv \<Rightarrow> string list option \<Rightarrow> jv \<times> heap" where
  "makeEntryObject h item itemEntryPoints =
     (case itemEntryPoints of
        None \<Rightarrow> (item, h)
      | Some entryPoints \<Rightarrow>
          (Ref (length h),
           h @ [fold (\<lambda>entryPoint entryObj.
                   case item of
                     Ref a \<Rightarrow>
                       (case readKey (cellAt h a) (Name entryPoint) of
                          Some v \<Rightarrow> writeKey entryObj (Name entryPoint) v
                        | None \<Rightarrow> entryObj)
                   | _ \<Rightarrow> entryObj)
                 entryPoints (CObj [])]))"

text \<open>
  \<open>Object.assign(target, source)\<close> takes the own keys of the source and, key by key,
  reads the source and writes the target.  The target is an object, where the key of an
  array element is the decimal name of its index.
\<close>

definition asName :: "key \<Rightarrow> key" where
  "asName k = (case k of Name s \<Rightarrow> Name s | Index i \<Rightarrow> Name (digits i))"

definition objectAssign :: "heap \<Rightarrow> jv \<Rightarrow> jv \<Rightarrow> heap" where
  "objectAssign h target source =
     (case (target, source) of
        (Ref t, Ref s) \<Rightarrow>
          fold (\<lambda>k h'. case readKey (cellAt h' s) k of
                          Some v \<Rightarrow> store h' t (asName k) v
                        | None \<Rightarrow> h')
            (ownKeys (cellAt h s)) h
      | _ \<Rightarrow> h)"

record options =
  removeUnresolved :: bool
  itemEntryPoints :: "string list option"

text \<open>
  The body of \<open>resolveResponse\<close> behind the copy, on the store that holds the copy:
  \<open>items\<close> are the elements of \<open>responseClone.items\<close> and \<open>includes\<close> those of
  \<open>Object.values(responseClone.includes || [])\<close>.
\<close>

fun keepEntities :: "heap \<Rightarrow> jv list \<Rightarrow> err + jv list" where
  "keepEntities h [] = Inr []"
| "keepEntities h (entity # rest) =
     bnd (getp h entity ''sys'') (\<lambda>sys.
     bnd (keepEntities h rest) (\<lambda>kept.
     Inr (if truthy sys then entity # kept else kept)))"

fun entityPairs :: "tostring \<Rightarrow> heap \<Rightarrow> jv list \<Rightarrow> err + (string \<times> jv) list" where
  "entityPairs S h [] = Inr []"
| "entityPairs S h (entity # rest) =
     bnd (getp h entity ''sys'') (\<lambda>sys.
     bnd (makeEntityMapKeys S h sys) (\<lambda>keys.
     bnd (entityPairs S h rest) (\<lambda>pairs.
     Inr (map (\<lambda>key. (key, entity)) keys @ pairs))))"

text \<open>\<open>new Map(pairs)\<close>: a later pair replaces an earlier one with the same key.\<close>

definition newMap :: "(string \<times> jv) list \<Rightarrow> entityMap" where
  "newMap pairs = fold (\<lambda>kv m. m(fst kv \<mapsto> snd kv)) pairs Map.empty"

definition isAnyLink :: "heap \<Rightarrow> jv \<Rightarrow> bool" where
  "isAnyLink h x = (isLink h x \<or> isResourceLink h x)"

definition resolveItem :: "tostring \<Rightarrow> nat \<Rightarrow> options \<Rightarrow> entityMap \<Rightarrow> heap \<Rightarrow> jv \<Rightarrow> err + heap" where
  "resolveItem S fuel opts entityMap h item =
     (let (entryObject, h1) = makeEntryObject h item (itemEntryPoints opts) in
      bnd (walkMutate fuel isAnyLink
             (normalizeLink S entityMap (removeUnresolved opts)) (removeUnresolved opts)
             h1 entryObject)
        (\<lambda>r. Inr (objectAssign (snd r) item (fst r))))"

fun resolveAll :: "tostring \<Rightarrow> nat \<Rightarrow> options \<Rightarrow> entityMap \<Rightarrow> heap \<Rightarrow> jv list \<Rightarrow> err + heap" where
  "resolveAll S fuel opts entityMap h [] = Inr h"
| "resolveAll S fuel opts entityMap h (item # rest) =
     bnd (resolveItem S fuel opts entityMap h item) (\<lambda>h'.
     resolveAll S fuel opts entityMap h' rest)"

definition resolveStore ::
  "tostring \<Rightarrow> nat \<Rightarrow> options \<Rightarrow> heap \<Rightarrow> jv list \<Rightarrow> jv list list \<Rightarrow> err + (jv list \<times> heap)" where
  "resolveStore S fuel opts h items includes =
     bnd (keepEntities h (items @ concat includes)) (\<lambda>allEntries.
     bnd (entityPairs S h allEntries) (\<lambda>pairs.
     bnd (resolveAll S fuel opts (newMap pairs) h allEntries) (\<lambda>h'.
     Inr (items, h'))))"

section \<open>Responses and the copy\<close>

text \<open>
  A response arrives as parsed JSON.  The copy of such a tree is a store in which every
  object and array has an address of its own.
\<close>

datatype json =
    JNull | JBool bool | JNum int | JStr string | JArr "json list" | JObj "(string \<times> json) list"

fun copy :: "json \<Rightarrow> heap \<Rightarrow> jv \<times> heap"
  and copyList :: "json list \<Rightarrow> heap \<Rightarrow> jv list \<times> heap"
  and copyFields :: "(string \<times> json) list \<Rightarrow> heap \<Rightarrow> (string \<times> jv) list \<times> heap"
where
  "copy JNull h = (Null, h)"
| "copy (JBool b) h = (Bool b, h)"
| "copy (JNum n) h = (Num n, h)"
| "copy (JStr s) h = (Str s, h)"
| "copy (JArr xs) h = (let (vs, h') = copyList xs h in (Ref (length h'), h' @ [CArr vs]))"
| "copy (JObj fs) h = (let (kvs, h') = copyFields fs h in (Ref (length h'), h' @ [CObj kvs]))"
| "copyList [] h = ([], h)"
| "copyList (x # xs) h =
     (let (v, h1) = copy x h; (vs, h2) = copyList xs h1 in (v # vs, h2))"
| "copyFields [] h = ([], h)"
| "copyFields (f # fs) h =
     (let (v, h1) = copy (snd f) h; (kvs, h2) = copyFields fs h1 in ((fst f, v) # kvs, h2))"

fun copyIncludes :: "(string \<times> json list) list \<Rightarrow> heap \<Rightarrow> jv list list \<times> heap" where
  "copyIncludes [] h = ([], h)"
| "copyIncludes (inc # incs) h =
     (let (vs, h1) = copyList (snd inc) h; (vss, h2) = copyIncludes incs h1 in (vs # vss, h2))"

text \<open>
  The response has the declared shape: \<open>items\<close>, when present, is an array, and
  \<open>includes\<close> (the field \<open>includes'\<close>), when present, maps a kind to an array.  An absent
  \<open>includes\<close> is the empty list here, as \<open>responseClone.includes || []\<close> has no values
  either.
\<close>

record response =
  items :: "json list option"
  includes' :: "(string \<times> json list) list"

definition resolveResponse ::
  "tostring \<Rightarrow> nat \<Rightarrow> response \<Rightarrow> options \<Rightarrow> err + (jv list \<times> heap)" where
  "resolveResponse S fuel resp opts =
     (case items resp of
        None \<Rightarrow> Inr ([], [])
      | Some its \<Rightarrow>
          (let (ivs, h1) = copyList its [];
               (incs, h2) = copyIncludes (includes' resp) h1
           in resolveStore S fuel opts h2 ivs incs))"

section \<open>Notions for the statements\<close>


text \<open>The keys a record qualifies for: what \<open>makeEntityMapKeys\<close> returns on its \<open>sys\<close>.\<close>

definition keysOf :: "tostring \<Rightarrow> heap \<Rightarrow> jv \<Rightarrow> string set" where
  "keysOf S h e = (case makeEntityMapKeys S h (optp h e ''sys'') of Inr ks \<Rightarrow> set ks | Inl _ \<Rightarrow> {})"

text \<open>
  A value is settled within depth \<open>n\<close> when the walker, descending from it, meets no
  node that satisfies the predicate and no path of more than \<open>n\<close> nodes.
\<close>

fun cellValues :: "cell \<Rightarrow> jv list" where
  "cellValues (CObj kvs) = map snd kvs"
| "cellValues (CArr vs) = vs"


section \<open>Responses as trees in the store\<close>

text \<open>
  A parsed response is well formed when every object holds each field name once.  Its depth
  is the number of nested objects and arrays.
\<close>

fun wellFormed :: "json \<Rightarrow> bool"
  and wellFormedList :: "json list \<Rightarrow> bool"
  and wellFormedFields :: "(string \<times> json) list \<Rightarrow> bool"
where
  "wellFormed (JArr xs) = wellFormedList xs"
| "wellFormed (JObj fs) = (distinct (map fst fs) \<and> wellFormedFields fs)"
| "wellFormed JNull = True"
| "wellFormed (JBool b) = True"
| "wellFormed (JNum n) = True"
| "wellFormed (JStr s) = True"
| "wellFormedList [] = True"
| "wellFormedList (x # xs) = (wellFormed x \<and> wellFormedList xs)"
| "wellFormedFields [] = True"
| "wellFormedFields (f # fs) = (wellFormed (snd f) \<and> wellFormedFields fs)"

fun depth :: "json \<Rightarrow> nat"
  and depthList :: "json list \<Rightarrow> nat"
  and depthFields :: "(string \<times> json) list \<Rightarrow> nat"
where
  "depth (JArr xs) = Suc (depthList xs)"
| "depth (JObj fs) = Suc (depthFields fs)"
| "depth JNull = 0"
| "depth (JBool b) = 0"
| "depth (JNum n) = 0"
| "depth (JStr s) = 0"
| "depthList [] = 0"
| "depthList (x # xs) = max (depth x) (depthList xs)"
| "depthFields [] = 0"
| "depthFields (f # fs) = max (depth (snd f)) (depthFields fs)"

fun depthIncludes :: "(string \<times> json list) list \<Rightarrow> nat" where
  "depthIncludes [] = 0"
| "depthIncludes (inc # incs) = max (depthList (snd inc)) (depthIncludes incs)"

definition wellFormedResponse :: "response \<Rightarrow> bool" where
  "wellFormedResponse resp =
     ((case items resp of Some its \<Rightarrow> wellFormedList its | None \<Rightarrow> True) \<and>
      (\<forall>inc \<in> set (includes' resp). wellFormedList (snd inc)))"

definition responseDepth :: "response \<Rightarrow> nat" where
  "responseDepth resp =
     max (case items resp of Some its \<Rightarrow> depthList its | None \<Rightarrow> 0) (depthIncludes (includes' resp))"

text \<open>A value of the store reads back as a JSON tree.\<close>

fun represents :: "heap \<Rightarrow> jv \<Rightarrow> json \<Rightarrow> bool"
  and representsList :: "heap \<Rightarrow> jv list \<Rightarrow> json list \<Rightarrow> bool"
  and representsFields :: "heap \<Rightarrow> (string \<times> jv) list \<Rightarrow> (string \<times> json) list \<Rightarrow> bool"
where
  "represents h v JNull = (v = Null)"
| "represents h v (JBool b) = (v = Bool b)"
| "represents h v (JNum n) = (v = Num n)"
| "represents h v (JStr s) = (v = Str s)"
| "represents h v (JArr xs) =
     (case v of
        Ref a \<Rightarrow> a < length h \<and> (case h ! a of CArr vs \<Rightarrow> representsList h vs xs | CObj kvs \<Rightarrow> False)
      | _ \<Rightarrow> False)"
| "represents h v (JObj fs) =
     (case v of
        Ref a \<Rightarrow> a < length h \<and> (case h ! a of CObj kvs \<Rightarrow> representsFields h kvs fs | CArr vs \<Rightarrow> False)
      | _ \<Rightarrow> False)"
| "representsList h vs [] = (vs = [])"
| "representsList h vs (x # xs) =
     (case vs of [] \<Rightarrow> False | v # vs' \<Rightarrow> represents h v x \<and> representsList h vs' xs)"
| "representsFields h kvs [] = (kvs = [])"
| "representsFields h kvs (f # fs) =
     (case kvs of
        [] \<Rightarrow> False
      | kv # kvs' \<Rightarrow> fst kv = fst f \<and> represents h (snd kv) (snd f) \<and> representsFields h kvs' fs)"

text \<open>
  What is true of a JSON value in a condition, and whether an item has an identity block:
  \<open>Boolean(entity.sys)\<close> on the tree.
\<close>

fun truthyJ :: "json \<Rightarrow> bool" where
  "truthyJ JNull = False"
| "truthyJ (JBool b) = b"
| "truthyJ (JNum n) = (n \<noteq> 0)"
| "truthyJ (JStr s) = (s \<noteq> [])"
| "truthyJ (JArr xs) = True"
| "truthyJ (JObj fs) = True"

definition hasIdentity :: "json \<Rightarrow> bool" where
  "hasIdentity t =
     (case t of
        JObj fs \<Rightarrow> (case map_of fs ''sys'' of Some s \<Rightarrow> truthyJ s | None \<Rightarrow> False)
      | _ \<Rightarrow> False)"

text \<open>
  The copy that \<open>resolveResponse\<close> works on (the values of items and includes and the
  store), the list \<open>allEntries\<close> and the index it builds from them.
\<close>

definition copied :: "response \<Rightarrow> jv list \<times> jv list list \<times> heap" where
  "copied resp =
     (let (ivs, h1) = copyList (case items resp of Some its \<Rightarrow> its | None \<Rightarrow> []) [];
          (incs, h2) = copyIncludes (includes' resp) h1
      in (ivs, incs, h2))"


definition entityMapOf :: "tostring \<Rightarrow> response \<Rightarrow> err + entityMap" where
  "entityMapOf S resp =
     (case copied resp of (ivs, incs, h) \<Rightarrow>
        bnd (keepEntities h (ivs @ concat incs)) (\<lambda>allEntries.
        bnd (entityPairs S h allEntries) (\<lambda>pairs. Inr (newMap pairs))))"

text \<open>
  \<open>tree d h v A\<close>: in the store \<open>h\<close> the value \<open>v\<close> is the root of a tree of depth at most
  \<open>d\<close> whose objects and arrays are the addresses \<open>A\<close>, none of them shared; \<open>trees\<close> is
  the same for a list of values with pairwise disjoint trees.
\<close>

inductive tree :: "nat \<Rightarrow> heap \<Rightarrow> jv \<Rightarrow> nat set \<Rightarrow> bool"
  and trees :: "nat \<Rightarrow> heap \<Rightarrow> jv list \<Rightarrow> nat set \<Rightarrow> bool"
where
  leaf: "(\<And>a. v \<noteq> Ref a) \<Longrightarrow> tree d h v {}"
| node: "a < length h \<Longrightarrow> distinct (ownKeys (cellAt h a)) \<Longrightarrow>
         trees d h (cellValues (cellAt h a)) B \<Longrightarrow> a \<notin> B \<Longrightarrow>
         tree (Suc d) h (Ref a) (insert a B)"
| nil: "trees d h [] {}"
| cons: "tree d h v A \<Longrightarrow> trees d h vs B \<Longrightarrow> A \<inter> B = {} \<Longrightarrow> trees d h (v # vs) (A \<union> B)"

fun isRef :: "jv \<Rightarrow> bool" where
  "isRef (Ref a) = True"
| "isRef v = False"

text \<open>
  \<open>frames h A h'\<close>: the store \<open>h'\<close> extends \<open>h\<close> and differs from it at most at the
  addresses \<open>A\<close>.  \<open>within A h h'\<close>: \<open>h'\<close> is \<open>h\<close> with cells appended, and \<open>A\<close> lies in
  the appended part.
\<close>

definition frames :: "heap \<Rightarrow> nat set \<Rightarrow> heap \<Rightarrow> bool" where
  "frames h A h' = (length h \<le> length h' \<and> (\<forall>a < length h. a \<notin> A \<longrightarrow> h' ! a = h ! a))"

definition within :: "nat set \<Rightarrow> heap \<Rightarrow> heap \<Rightarrow> bool" where
  "within A h h' = ((\<exists>cs. h' = h @ cs) \<and> A \<subseteq> {length h..<length h'})"

definition reads :: "cell \<Rightarrow> key list \<Rightarrow> jv list" where
  "reads c ks = List.map_filter (readKey c) ks"

text \<open>
  \<open>safely room m Q\<close>: the computation \<open>m\<close> returns a result with \<open>Q\<close>, or throws; it
  throws \<open>RangeError\<close> only when there was no room on the stack.
\<close>

definition safely :: "bool \<Rightarrow> err + 'a \<Rightarrow> ('a \<Rightarrow> bool) \<Rightarrow> bool" where
  "safely room m Q = (case m of Inl e \<Rightarrow> e = RangeError \<longrightarrow> \<not> room | Inr x \<Rightarrow> Q x)"

definition typeErrors :: "err + 'a \<Rightarrow> bool" where
  "typeErrors m = (\<forall>e. m = Inl e \<longrightarrow> e = TypeError)"

text \<open>The object that \<open>makeEntryObject\<close> builds for a list of entry points.\<close>

definition entryCell :: "heap \<Rightarrow> jv \<Rightarrow> string list \<Rightarrow> cell \<Rightarrow> cell" where
  "entryCell h item entryPoints acc =
     fold (\<lambda>entryPoint entryObj.
             case item of
               Ref a \<Rightarrow>
                 (case readKey (cellAt h a) (Name entryPoint) of
                    Some v \<Rightarrow> writeKey entryObj (Name entryPoint) v
                  | None \<Rightarrow> entryObj)
             | _ \<Rightarrow> entryObj)
       entryPoints acc"

section \<open>Example responses\<close>

text \<open>
  The string of a plain object, for the examples; none of them has an object or an array
  where a key is built.
\<close>

definition objectString :: tostring where
  "objectString h a = ''[object Object]''"

definition plainEntry :: "string \<Rightarrow> string \<Rightarrow> (string \<times> json) list \<Rightarrow> json" where
  "plainEntry ty i fs = JObj ((''sys'', JObj [(''type'', JStr ty), (''id'', JStr i)]) # fs)"

definition scopedEntry :: "string \<Rightarrow> string \<Rightarrow> string \<Rightarrow> string \<Rightarrow> (string \<times> json) list \<Rightarrow> json" where
  "scopedEntry sp env ty i fs =
     JObj ((''sys'', JObj [(''type'', JStr ty), (''id'', JStr i),
                          (''space'', JObj [(''sys'', JObj [(''id'', JStr sp)])]),
                          (''environment'', JObj [(''sys'', JObj [(''id'', JStr env)])])]) # fs)"

definition linkTo :: "string \<Rightarrow> string \<Rightarrow> json" where
  "linkTo ty i = JObj [(''sys'', JObj [(''type'', JStr ''Link''), (''linkType'', JStr ty), (''id'', JStr i)])]"

definition resourceLinkTo :: "string \<Rightarrow> string \<Rightarrow> json" where
  "resourceLinkTo ty urn =
     JObj [(''sys'', JObj [(''type'', JStr ''ResourceLink''), (''linkType'', JStr ty), (''urn'', JStr urn)])]"

definition storeOf :: "json list \<Rightarrow> heap" where
  "storeOf js = snd (copyList js [])"

definition valuesOf :: "json list \<Rightarrow> jv list" where
  "valuesOf js = fst (copyList js [])"

definition scopedThenPlain :: "json list" where
  "scopedThenPlain = [scopedEntry ''S'' ''E'' ''Entry'' ''x'' [], plainEntry ''Entry'' ''x'' []]"

definition scopedAndLinker :: "json list" where
  "scopedAndLinker =
     [scopedEntry ''S'' ''E'' ''Entry'' ''x'' [],
      plainEntry ''Entry'' ''y'' [(''ref'', linkTo ''Entry'' ''x''),
         (''res'', resourceLinkTo ''Contentful:Entry'' ''crn:spaces/S/environments/E/entries/x'')]]"

definition scopedLinkerPlain :: "json list" where
  "scopedLinkerPlain =
     [scopedEntry ''S'' ''E'' ''Entry'' ''x'' [],
      plainEntry ''Entry'' ''y'' [(''ref'', linkTo ''Entry'' ''x'')],
      plainEntry ''Entry'' ''x'' []]"

definition twins :: "json list" where
  "twins = [plainEntry ''Entry'' ''x'' [(''n'', JNum 1)], plainEntry ''Entry'' ''x'' [(''n'', JNum 2)]]"

definition keepAll :: options where
  "keepAll = \<lparr>removeUnresolved = False, itemEntryPoints = None\<rparr>"

definition prune :: options where
  "prune = \<lparr>removeUnresolved = True, itemEntryPoints = None\<rparr>"

text \<open>A cross-scope link with a well-formed URN and no kind descriptor.\<close>

definition resourceLinkWithoutKind :: response where
  "resourceLinkWithoutKind =
     \<lparr>items = Some [plainEntry ''Entry'' ''a''
        [(''ref'', JObj [(''sys'', JObj [(''type'', JStr ''ResourceLink''),
                                       (''urn'', JStr ''crn:spaces/S/entries/x'')])])]],
      includes' = []\<rparr>"

text \<open>
  An item that is itself a link to the next item, whose array holds a link to a record
  that is not in the response; and the store after resolving it with pruning.
\<close>

definition linkItemBeforeTarget :: response where
  "linkItemBeforeTarget =
     \<lparr>items = Some [linkTo ''Entry'' ''b'',
                    plainEntry ''Entry'' ''b'' [(''arr'', JArr [linkTo ''Entry'' ''missing''])]],
      includes' = []\<rparr>"

definition leakedStore :: heap where
  "leakedStore =
     [CObj [(''type'', Str ''Link''), (''linkType'', Str ''Entry''), (''id'', Str ''b'')],
      CObj [(''sys'', Ref 2), (''arr'', Ref 5)],
      CObj [(''type'', Str ''Entry''), (''id'', Str ''b'')],
      CObj [(''type'', Str ''Link''), (''linkType'', Str ''Entry''), (''id'', Str ''missing'')],
      CObj [(''sys'', Ref 3)],
      CArr [Unres],
      CObj [(''sys'', Ref 2), (''arr'', Ref 7)],
      CArr []]"

text \<open>Two records that link to each other, and the store after resolving them.\<close>

definition mutual :: response where
  "mutual =
     \<lparr>items = Some [plainEntry ''Entry'' ''a'' [(''fields'', JObj [(''b'', linkTo ''Entry'' ''b'')])],
                    plainEntry ''Entry'' ''b'' [(''fields'', JObj [(''a'', linkTo ''Entry'' ''a'')])]],
      includes' = []\<rparr>"

definition mutualResolved :: heap where
  "mutualResolved =
     [CObj [(''type'', Str ''Entry''), (''id'', Str ''a'')],
      CObj [(''type'', Str ''Link''), (''linkType'', Str ''Entry''), (''id'', Str ''b'')],
      CObj [(''sys'', Ref 1)],
      CObj [(''b'', Ref 9)],
      CObj [(''sys'', Ref 0), (''fields'', Ref 3)],
      CObj [(''type'', Str ''Entry''), (''id'', Str ''b'')],
      CObj [(''type'', Str ''Link''), (''linkType'', Str ''Entry''), (''id'', Str ''a'')],
      CObj [(''sys'', Ref 6)],
      CObj [(''a'', Ref 4)],
      CObj [(''sys'', Ref 5), (''fields'', Ref 8)]]"







text \<open>Paths through a record. \<open>linkAt h v p K\<close>: following the field names \<open>p\<close> from \<open>v\<close>
  through objects that are not themselves links ends in a Link node whose lookup key
  \<open>linkType!id\<close> is \<open>K\<close>. \<open>resolvedAt h v p E A\<close>: following \<open>p\<close> from \<open>v\<close> ends in the value
  \<open>E\<close>, the objects passed on the way lying at pairwise different addresses of \<open>A\<close>.\<close>

fun linkAt :: "heap \<Rightarrow> jv \<Rightarrow> string list \<Rightarrow> string \<Rightarrow> bool" where
  "linkAt h v [] K =
     (isLink h v \<and>
      (case optp h (optp h v ''sys'') ''linkType'' of
         Str t \<Rightarrow> (case optp h (optp h v ''sys'') ''id'' of Str i \<Rightarrow> K = t @ ''!'' @ i | _ \<Rightarrow> False)
       | _ \<Rightarrow> False))"
| "linkAt h v (k # p) K =
     (\<not> isAnyLink h v \<and>
      (case v of
         Ref a \<Rightarrow>
           (case cellAt h a of
              CObj kvs \<Rightarrow> (case map_of kvs k of Some x \<Rightarrow> linkAt h x p K | None \<Rightarrow> False)
            | CArr vs \<Rightarrow> False)
       | _ \<Rightarrow> False))"

fun resolvedAt :: "heap \<Rightarrow> jv \<Rightarrow> string list \<Rightarrow> jv \<Rightarrow> nat set \<Rightarrow> bool" where
  "resolvedAt h v [] E A = (v = E)"
| "resolvedAt h v (k # p) E A =
     (\<exists>a kvs x A'. v = Ref a \<and> a \<in> A \<and> a < length h \<and> h ! a = CObj kvs \<and>
        map_of kvs k = Some x \<and> A' \<subseteq> A - {a} \<and> resolvedAt h x p E A')"

text \<open>The store in which \<open>copied\<close> lays out the two records of \<open>mutual\<close>.\<close>

definition mutualCopied :: heap where
  "mutualCopied =
     [CObj [(''type'', Str ''Entry''), (''id'', Str ''a'')],
      CObj [(''type'', Str ''Link''), (''linkType'', Str ''Entry''), (''id'', Str ''b'')],
      CObj [(''sys'', Ref 1)],
      CObj [(''b'', Ref 2)],
      CObj [(''sys'', Ref 0), (''fields'', Ref 3)],
      CObj [(''type'', Str ''Entry''), (''id'', Str ''b'')],
      CObj [(''type'', Str ''Link''), (''linkType'', Str ''Entry''), (''id'', Str ''a'')],
      CObj [(''sys'', Ref 6)],
      CObj [(''a'', Ref 7)],
      CObj [(''sys'', Ref 5), (''fields'', Ref 8)]]"

text \<open>
  A record whose top-level field \<open>ref\<close> holds a link to a record that is not in the response,
  its copy, and the store after resolving it with pruning and no entry points.
\<close>

definition danglingField :: response where
  "danglingField =
     \<lparr>items = Some [plainEntry ''Entry'' ''a''
                      [(''ref'', linkTo ''Entry'' ''missing''), (''title'', JStr ''t'')]],
      includes' = []\<rparr>"

definition danglingCopied :: heap where
  "danglingCopied =
     [CObj [(''type'', Str ''Entry''), (''id'', Str ''a'')],
      CObj [(''type'', Str ''Link''), (''linkType'', Str ''Entry''), (''id'', Str ''missing'')],
      CObj [(''sys'', Ref 1)],
      CObj [(''sys'', Ref 0), (''ref'', Ref 2), (''title'', Str ''t'')]]"

definition danglingPruned :: heap where
  "danglingPruned =
     [CObj [(''type'', Str ''Entry''), (''id'', Str ''a'')],
      CObj [(''type'', Str ''Link''), (''linkType'', Str ''Entry''), (''id'', Str ''missing'')],
      CObj [(''sys'', Ref 1)],
      CObj [(''sys'', Ref 0), (''title'', Str ''t'')]]"

text \<open>
  A record with the fields \<open>sys\<close>, \<open>fields\<close> and \<open>metadata\<close>, both of the latter holding a
  link to the second record; entry points that name \<open>fields\<close> and a field no record has; the
  copy of the response and the store after resolving it.
\<close>

definition onlyFields :: options where
  "onlyFields = \<lparr>removeUnresolved = True, itemEntryPoints = Some [''fields'', ''absent'']\<rparr>"

definition withMetadata :: response where
  "withMetadata =
     \<lparr>items = Some [plainEntry ''Entry'' ''a''
                      [(''fields'', JObj [(''b'', linkTo ''Entry'' ''b'')]),
                       (''metadata'', JObj [(''ref'', linkTo ''Entry'' ''b'')])],
                    plainEntry ''Entry'' ''b'' []],
      includes' = []\<rparr>"

definition metadataCopied :: heap where
  "metadataCopied =
     [CObj [(''type'', Str ''Entry''), (''id'', Str ''a'')],
      CObj [(''type'', Str ''Link''), (''linkType'', Str ''Entry''), (''id'', Str ''b'')],
      CObj [(''sys'', Ref 1)],
      CObj [(''b'', Ref 2)],
      CObj [(''type'', Str ''Link''), (''linkType'', Str ''Entry''), (''id'', Str ''b'')],
      CObj [(''sys'', Ref 4)],
      CObj [(''ref'', Ref 5)],
      CObj [(''sys'', Ref 0), (''fields'', Ref 3), (''metadata'', Ref 6)],
      CObj [(''type'', Str ''Entry''), (''id'', Str ''b'')],
      CObj [(''sys'', Ref 8)]]"

definition metadataKept :: heap where
  "metadataKept =
     [CObj [(''type'', Str ''Entry''), (''id'', Str ''a'')],
      CObj [(''type'', Str ''Link''), (''linkType'', Str ''Entry''), (''id'', Str ''b'')],
      CObj [(''sys'', Ref 1)],
      CObj [(''b'', Ref 9)],
      CObj [(''type'', Str ''Link''), (''linkType'', Str ''Entry''), (''id'', Str ''b'')],
      CObj [(''sys'', Ref 4)],
      CObj [(''ref'', Ref 5)],
      CObj [(''sys'', Ref 0), (''fields'', Ref 3), (''metadata'', Ref 6)],
      CObj [(''type'', Str ''Entry''), (''id'', Str ''b'')],
      CObj [(''sys'', Ref 8)],
      CObj [(''fields'', Ref 3)],
      CObj []]"

text \<open>
  A record that is itself a link node, with fields of its own, and the record it links to;
  entry points that name \<open>sys\<close> only.
\<close>

definition linkRecord :: response where
  "linkRecord =
     \<lparr>items = Some [JObj [(''sys'', JObj [(''type'', JStr ''Link''), (''linkType'', JStr ''Entry''),
                                          (''id'', JStr ''b'')]),
                          (''fields'', JObj [(''x'', linkTo ''Entry'' ''b'')]),
                          (''other'', JStr ''mine'')],
                    plainEntry ''Entry'' ''b'' [(''other'', JStr ''theirs'')]],
      includes' = []\<rparr>"

definition onlySys :: options where
  "onlySys = \<lparr>removeUnresolved = False, itemEntryPoints = Some [''sys'']\<rparr>"

section \<open>The URN decoder decides the pattern\<close>

lemma stripSuffix_iff: "stripSuffix suf s = Some p \<longleftrightarrow> s = p @ suf"
proof
  assume "stripSuffix suf s = Some p"
  then have a: "length suf \<le> length s" "drop (length s - length suf) s = suf"
    "p = take (length s - length suf) s"
    by (auto simp: stripSuffix_def split: if_splits)
  show "s = p @ suf" using a(2,3) append_take_drop_id [of "length s - length suf" s] by simp
next
  assume "s = p @ suf"
  then show "stripSuffix suf s = Some p" by (simp add: stripSuffix_def)
qed

lemma stripSuffix_None_iff: "stripSuffix suf s = None \<longleftrightarrow> (\<forall>p. s \<noteq> p @ suf)"
  using stripSuffix_iff [of suf s] by (metis not_Some_eq)

lemma segments_id: "beforeLastSegment s @ lastSegment s = s"
proof -
  have "rev (beforeLastSegment s @ lastSegment s) = rev s"
    by (simp add: beforeLastSegment_def lastSegment_def)
  then show ?thesis using rev_is_rev_conv by blast
qed

lemma noSlash_lastSegment: "noSlash (lastSegment s)"
  by (auto simp: noSlash_def lastSegment_def dest: set_takeWhileD)

lemma takeWhile_stop: "\<forall>x \<in> set xs. P x \<Longrightarrow> \<not> P y \<Longrightarrow> takeWhile P (xs @ y # ys) = xs"
  by (induction xs) auto

lemma dropWhile_stop: "\<forall>x \<in> set xs. P x \<Longrightarrow> \<not> P y \<Longrightarrow> dropWhile P (xs @ y # ys) = y # ys"
  by (induction xs) auto

lemma lastSegment_append: "noSlash b \<Longrightarrow> lastSegment (a @ CHR ''/'' # b) = b"
  by (simp add: lastSegment_def noSlash_def takeWhile_stop)

lemma beforeLastSegment_append: "noSlash b \<Longrightarrow> beforeLastSegment (a @ CHR ''/'' # b) = a @ ''/''"
  by (simp add: beforeLastSegment_def noSlash_def dropWhile_stop)

lemma spaces_not_environments: "p @ '':spaces/'' \<noteq> q @ ''/environments/''"
proof
  assume "p @ '':spaces/'' = q @ ''/environments/''"
  then have "rev (p @ '':spaces/'') = rev (q @ ''/environments/'')" by simp
  then show False by simp
qed

lemma urnMatch_complete:
  assumes "urnPattern s sp env en"
  shows "urnMatch s = Some (sp, env, en)"
proof (cases env)
  case None
  with assms obtain p where p: "dotStar p" "s = p @ '':spaces/'' @ sp @ ''/entries/'' @ en"
    and ne: "sp \<noteq> []" "en \<noteq> []" and ns: "noSlash sp" "noSlash en"
    by (auto simp: urnPattern_def)
  define r where "r = p @ '':spaces/'' @ sp"
  have l1: "lastSegment s = en"
    using lastSegment_append [OF ns(2), of "r @ ''/entries''"] p(2) by (simp add: r_def)
  have b1: "beforeLastSegment s = r @ ''/entries/''"
    using beforeLastSegment_append [OF ns(2), of "r @ ''/entries''"] p(2) by (simp add: r_def)
  have t1: "stripSuffix ''/entries/'' (beforeLastSegment s) = Some r"
    unfolding b1 stripSuffix_iff by simp
  have l2: "lastSegment r = sp"
    using lastSegment_append [OF ns(1), of "p @ '':spaces''"] by (simp add: r_def)
  have b2: "beforeLastSegment r = p @ '':spaces/''"
    using beforeLastSegment_append [OF ns(1), of "p @ '':spaces''"] by (simp add: r_def)
  have t2: "stripSuffix '':spaces/'' (beforeLastSegment r) = Some p"
    unfolding b2 stripSuffix_iff by simp
  show ?thesis unfolding urnMatch_def Let_def l1 t1 using ne p(1) None
    by (simp add: l2 t2)
next
  case (Some e)
  with assms obtain p where p: "dotStar p"
      "s = p @ '':spaces/'' @ sp @ ''/environments/'' @ e @ ''/entries/'' @ en"
    and ne: "sp \<noteq> []" "en \<noteq> []" "e \<noteq> []" and ns: "noSlash sp" "noSlash en" "noSlash e"
    by (auto simp: urnPattern_def)
  define q where "q = p @ '':spaces/'' @ sp"
  define r where "r = q @ ''/environments/'' @ e"
  have l1: "lastSegment s = en"
    using lastSegment_append [OF ns(2), of "r @ ''/entries''"] p(2) by (simp add: r_def q_def)
  have b1: "beforeLastSegment s = r @ ''/entries/''"
    using beforeLastSegment_append [OF ns(2), of "r @ ''/entries''"] p(2)
    by (simp add: r_def q_def)
  have t1: "stripSuffix ''/entries/'' (beforeLastSegment s) = Some r"
    unfolding b1 stripSuffix_iff by simp
  have l2: "lastSegment r = e"
    using lastSegment_append [OF ns(3), of "q @ ''/environments''"] by (simp add: r_def)
  have b2: "beforeLastSegment r = q @ ''/environments/''"
    using beforeLastSegment_append [OF ns(3), of "q @ ''/environments''"] by (simp add: r_def)
  have t2: "stripSuffix '':spaces/'' (beforeLastSegment r) = None"
    unfolding b2 stripSuffix_None_iff using spaces_not_environments by metis
  have t3: "stripSuffix ''/environments/'' (beforeLastSegment r) = Some q"
    unfolding b2 stripSuffix_iff by simp
  have l3: "lastSegment q = sp"
    using lastSegment_append [OF ns(1), of "p @ '':spaces''"] by (simp add: q_def)
  have b3: "beforeLastSegment q = p @ '':spaces/''"
    using beforeLastSegment_append [OF ns(1), of "p @ '':spaces''"] by (simp add: q_def)
  have t4: "stripSuffix '':spaces/'' (beforeLastSegment q) = Some p"
    unfolding b3 stripSuffix_iff by simp
  show ?thesis unfolding urnMatch_def Let_def l1 t1 using ne p(1) Some
    by (simp add: l2 t2 t3 l3 t4)
qed

lemma urnMatch_sound:
  assumes "urnMatch s = Some (sp, env, en)"
  shows "urnPattern s sp env en"
proof -
  have en: "en = lastSegment s" "en \<noteq> []"
    using assms by (auto simp: urnMatch_def Let_def split: if_splits option.splits)
  obtain r where rr: "stripSuffix ''/entries/'' (beforeLastSegment s) = Some r"
    using assms by (auto simp: urnMatch_def Let_def split: if_splits option.splits)
  have s: "s = r @ ''/entries/'' @ en"
    using segments_id [of s] rr en(1) by (simp add: stripSuffix_iff)
  have x: "lastSegment r \<noteq> []"
    using assms rr by (auto simp: urnMatch_def Let_def split: if_splits option.splits)
  have nsen: "noSlash en" unfolding en(1) by (rule noSlash_lastSegment)
  show ?thesis
  proof (cases "stripSuffix '':spaces/'' (beforeLastSegment r)")
    case (Some p)
    then have a: "sp = lastSegment r" "env = None" "dotStar p"
      using assms rr x by (auto simp: urnMatch_def Let_def split: if_splits option.splits)
    have r: "r = p @ '':spaces/'' @ sp"
      using segments_id [of r] Some a(1) by (simp add: stripSuffix_iff)
    have "s = p @ '':spaces/'' @ sp @ ''/entries/'' @ en" unfolding s by (subst r) simp
    moreover have "noSlash sp" unfolding a(1) by (rule noSlash_lastSegment)
    ultimately show ?thesis unfolding urnPattern_def a(2) using a(1,3) x en(2) nsen
      by (simp only: option.case) blast
  next
    case None
    then obtain q where q: "stripSuffix ''/environments/'' (beforeLastSegment r) = Some q"
      using assms rr x by (auto simp: urnMatch_def Let_def split: if_splits option.splits)
    have y: "lastSegment q \<noteq> []"
      using assms rr x None q by (auto simp: urnMatch_def Let_def split: if_splits option.splits)
    obtain p where p: "stripSuffix '':spaces/'' (beforeLastSegment q) = Some p"
      using assms rr x None q y by (auto simp: urnMatch_def Let_def split: if_splits option.splits)
    have a: "sp = lastSegment q" "env = Some (lastSegment r)" "dotStar p"
      using assms rr x None q y p by (auto simp: urnMatch_def Let_def split: if_splits option.splits)
    have q1: "q = p @ '':spaces/'' @ sp"
      using segments_id [of q] p a(1) by (simp add: stripSuffix_iff)
    have r1: "r = q @ ''/environments/'' @ lastSegment r"
      using segments_id [of r] q by (simp add: stripSuffix_iff)
    have "s = p @ '':spaces/'' @ sp @ ''/environments/'' @ lastSegment r @ ''/entries/'' @ en"
      unfolding s by (subst r1, subst q1) simp
    moreover have "noSlash sp" unfolding a(1) by (rule noSlash_lastSegment)
    moreover have "noSlash (lastSegment r)" by (rule noSlash_lastSegment)
    ultimately show ?thesis unfolding urnPattern_def a(2) using a(1,3) x y en(2) nsen
      by (simp only: option.case) blast
  qed
qed

text \<open>
  C5.  For every input string the URN decoder returns the space, the environment and the
  entry when the string matches the pattern
  \<open><prefix>:spaces/<spaceId>(/environments/<environmentId>)?/entries/<entryId>\<close>, with the
  environment \<open>master\<close> when the environments segment is absent; on every other string,
  and on every value that is not a string, it returns the no-result value and does not
  throw.
\<close>

theorem getIdsFromUrn_decodes:
  "(urnPattern s sp env en \<longrightarrow>
      getIdsFromUrn (Str s) =
        Some \<lparr>spaceId = sp,
              environmentId = (case env of None \<Rightarrow> ''master'' | Some e \<Rightarrow> e),
              entryId = en\<rparr>) \<and>
   ((\<forall>sp env en. \<not> urnPattern s sp env en) \<longrightarrow> getIdsFromUrn (Str s) = None) \<and>
   ((\<forall>t. v \<noteq> Str t) \<longrightarrow> getIdsFromUrn v = None)"
proof (intro conjI impI)
  assume m: "urnPattern s sp env en"
  then have "urnMatch s = Some (sp, env, en)" by (rule urnMatch_complete)
  moreover have "sp \<noteq> []" "en \<noteq> []" using m by (simp_all add: urnPattern_def)
  ultimately show "getIdsFromUrn (Str s) =
      Some \<lparr>spaceId = sp,
            environmentId = (case env of None \<Rightarrow> ''master'' | Some e \<Rightarrow> e),
            entryId = en\<rparr>"
    by (simp add: getIdsFromUrn_def)
next
  assume n: "\<forall>sp env en. \<not> urnPattern s sp env en"
  have "urnMatch s = None"
  proof (cases "urnMatch s")
    case (Some r)
    obtain sp env en where "r = (sp, env, en)" by (cases r) auto
    with Some have "urnPattern s sp env en" using urnMatch_sound by simp
    with n show ?thesis by blast
  qed simp
  then show "getIdsFromUrn (Str s) = None" by (simp add: getIdsFromUrn_def)
next
  assume "\<forall>t. v \<noteq> Str t"
  then show "getIdsFromUrn v = None" by (cases v) (simp_all add: getIdsFromUrn_def)
qed

theorem getIdsFromUrn_decodes_witness:
  "getIdsFromUrn (Str ''crn:spaces/SID/entries/EID'') =
     Some \<lparr>spaceId = ''SID'', environmentId = ''master'', entryId = ''EID''\<rparr> \<and>
   getIdsFromUrn (Str ''not-a-valid-urn'') = None \<and>
   getIdsFromUrn Undef = None"
proof -
  have "dotStar ''crn''" by (simp add: dotStar_def lineTerminator_def)
  then have p: "urnPattern ''crn:spaces/SID/entries/EID'' ''SID'' None ''EID''"
    unfolding urnPattern_def noSlash_def by (simp only: option.case) force
  have "urnMatch ''not-a-valid-urn'' = None" by code_simp
  then have n: "\<forall>sp env en. \<not> urnPattern ''not-a-valid-urn'' sp env en"
    using urnMatch_complete by fastforce
  have u: "\<forall>t. Undef \<noteq> Str t" by simp
  show ?thesis
    using getIdsFromUrn_decodes [of "''crn:spaces/SID/entries/EID''" "''SID''" None "''EID''" Undef]
      getIdsFromUrn_decodes [of "''not-a-valid-urn''" "''SID''" None "''EID''" Undef] p n u
    by simp
qed

section \<open>Exceptions and property reads\<close>

lemma bnd_Inr [simp]: "bnd (Inr x) f = f x" by (simp add: bnd_def)
lemma bnd_Inl [simp]: "bnd (Inl e) f = Inl e" by (simp add: bnd_def)

lemma optp_Str_is_Ref: "optp h v k = Str s \<Longrightarrow> \<exists>a. v = Ref a"
  by (cases v) (simp_all add: optp_def readAt_def)

lemma getp_Ref [simp]: "getp h (Ref a) k = Inr (optp h (Ref a) k)"
  by (simp add: getp_def optp_def)

lemma getp_truthy: "truthy v \<Longrightarrow> getp h v k = Inr (optp h v k)"
  by (cases v) (simp_all add: getp_def optp_def)

lemma getp_defined: "v \<noteq> Undef \<Longrightarrow> v \<noteq> Null \<Longrightarrow> getp h v k = Inr (optp h v k)"
  by (cases v) (simp_all add: getp_def optp_def)

lemma getp_Inr_iff: "getp h v k = Inr x \<longleftrightarrow> v \<noteq> Undef \<and> v \<noteq> Null \<and> x = optp h v k"
  by (cases v) (auto simp: getp_def optp_def)

lemma bnd_eq_Inr: "bnd m f = Inr y \<longleftrightarrow> (\<exists>x. m = Inr x \<and> f x = Inr y)"
  by (cases m) simp_all

lemma makeEntityMapKeys_defined:
  assumes "sys \<noteq> Undef" "sys \<noteq> Null"
  shows "makeEntityMapKeys S h sys =
     Inr (if truthy (optp h (optp h sys ''space'') ''sys'') \<and>
             truthy (optp h (optp h sys ''environment'') ''sys'')
          then [globalKey S h (optp h sys ''type'') (optp h sys ''id''),
                scopedKey S h (optp h (optp h (optp h sys ''space'') ''sys'') ''id'')
                  (optp h (optp h (optp h sys ''environment'') ''sys'') ''id'')
                  (optp h sys ''type'') (optp h sys ''id'')]
          else [globalKey S h (optp h sys ''type'') (optp h sys ''id'')])"
  using assms by (simp add: makeEntityMapKeys_def getp_defined getp_truthy)

lemma makeEntityMapKeys_Inr: "makeEntityMapKeys S h sys = Inr ks \<Longrightarrow> sys \<noteq> Undef \<and> sys \<noteq> Null"
  by (auto simp: makeEntityMapKeys_def getp_def)

lemma newMap_map_of: "newMap pairs = map_of (rev pairs)"
proof -
  have "fold (\<lambda>kv m. m(fst kv \<mapsto> snd kv)) ps m = m ++ map_of (rev ps)" for ps and m :: entityMap
  proof (induction ps arbitrary: m)
    case (Cons p ps)
    have "fold (\<lambda>kv m. m(fst kv \<mapsto> snd kv)) (p # ps) m = m(fst p \<mapsto> snd p) ++ map_of (rev ps)"
      using Cons [of "m(fst p \<mapsto> snd p)"] by (simp del: fun_upd_apply)
    also have "\<dots> = m ++ map_of (rev (p # ps))"
      by (cases p) (auto simp: fun_eq_iff map_add_def split: option.splits)
    finally show ?case .
  qed simp
  then show ?thesis by (simp add: newMap_def)
qed

lemma newMap_append:
  "newMap (ps @ qs) k = (case newMap qs k of Some v \<Rightarrow> Some v | None \<Rightarrow> newMap ps k)"
  by (simp add: newMap_map_of map_add_def split: option.splits)

lemma newMap_dom: "dom (newMap pairs) = fst ` set pairs"
  by (simp add: newMap_map_of dom_map_of_conv_image_fst)

lemma newMap_None: "k \<notin> fst ` set pairs \<Longrightarrow> newMap pairs k = None"
  using newMap_dom [of pairs] by blast

lemma newMap_const: "k \<in> set ks \<Longrightarrow> newMap (map (\<lambda>key. (key, e)) ks) k = Some e"
proof -
  assume k: "k \<in> set ks"
  then have "k \<in> dom (newMap (map (\<lambda>key. (key, e)) ks))" by (simp add: newMap_dom image_image)
  then obtain v where v: "newMap (map (\<lambda>key. (key, e)) ks) k = Some v" by blast
  then have "(k, v) \<in> set (rev (map (\<lambda>key. (key, e)) ks))"
    unfolding newMap_map_of by (rule map_of_SomeD)
  then show ?thesis using v by auto
qed

lemma entityPairs_append:
  "entityPairs S h (es1 @ es2) = Inr pairs \<longleftrightarrow>
     (\<exists>p1 p2. entityPairs S h es1 = Inr p1 \<and> entityPairs S h es2 = Inr p2 \<and> pairs = p1 @ p2)"
proof (induction es1 arbitrary: pairs)
  case (Cons e es1)
  show ?case by (auto simp: bnd_eq_Inr Cons)
qed simp

lemma entityPairs_Cons:
  "entityPairs S h (e # es) = Inr pairs \<longleftrightarrow>
     (\<exists>ks ps. makeEntityMapKeys S h (optp h e ''sys'') = Inr ks \<and> entityPairs S h es = Inr ps \<and>
        pairs = map (\<lambda>key. (key, e)) ks @ ps)"
proof -
  have "getp h e ''sys'' = Inr (optp h e ''sys'')"
    if "makeEntityMapKeys S h (optp h e ''sys'') = Inr ks" for ks
    using makeEntityMapKeys_Inr [OF that] by (cases e) (auto simp: getp_def optp_def readAt_def)
  then show ?thesis by (auto simp: bnd_eq_Inr getp_Inr_iff)
qed

lemma getResolvedLink_direct:
  assumes "isLink h link"
  shows "getResolvedLink S h entityMap link =
     Inr (orUnresolved (entityMap
        (globalKey S h (optp h (optp h link ''sys'') ''linkType'')
           (optp h (optp h link ''sys'') ''id''))))"
proof -
  obtain a where a: "link = Ref a" using assms
    unfolding isLink_def by (cases link) (simp_all add: optp_def readAt_def)
  obtain b where b: "optp h link ''sys'' = Ref b"
    using assms optp_Str_is_Ref unfolding isLink_def by blast
  have ty: "optp h (Ref b) ''type'' = Str ''Link''"
    using assms b by (simp add: isLink_def)
  show ?thesis using a b ty by (simp add: getResolvedLink_def lookupInEntityMap_def)
qed

lemma keepEntities_truthy:
  "keepEntities h vs = Inr es \<Longrightarrow> e \<in> set es \<Longrightarrow> e \<in> set vs \<and> truthy (optp h e ''sys'')"
proof (induction vs arbitrary: es)
  case (Cons v vs)
  then show ?case by (auto simp: bnd_eq_Inr getp_Inr_iff split: if_splits)
qed simp

lemma entityPairs_total:
  "\<forall>e \<in> set es. truthy (optp h e ''sys'') \<Longrightarrow> \<exists>pairs. entityPairs S h es = Inr pairs"
proof (induction es)
  case (Cons e es)
  then have t: "truthy (optp h e ''sys'')" by simp
  then have "e \<noteq> Undef" "e \<noteq> Null" by (auto simp: optp_def readAt_def)
  then have 1: "getp h e ''sys'' = Inr (optp h e ''sys'')" by (rule getp_defined)
  have "optp h e ''sys'' \<noteq> Undef" "optp h e ''sys'' \<noteq> Null" using t by auto
  then obtain ks where 2: "makeEntityMapKeys S h (optp h e ''sys'') = Inr ks"
    using makeEntityMapKeys_defined by blast
  from Cons obtain ps where "entityPairs S h es = Inr ps" by auto
  then show ?case using 1 2 by simp
qed simp

lemma entityPairs_keys:
  "entityPairs S h es = Inr pairs \<Longrightarrow> fst ` set pairs = (\<Union>e \<in> set es. keysOf S h e)"
proof (induction es arbitrary: pairs)
  case (Cons e es)
  from Cons.prems obtain ks ps where ks: "makeEntityMapKeys S h (optp h e ''sys'') = Inr ks"
    and ps: "entityPairs S h es = Inr ps" and pairs: "pairs = map (\<lambda>key. (key, e)) ks @ ps"
    unfolding entityPairs_Cons by blast
  have "fst ` set pairs = set ks \<union> fst ` set ps" by (auto simp: pairs image_Un image_image)
  also have "\<dots> = keysOf S h e \<union> (\<Union>e \<in> set es. keysOf S h e)"
    using Cons.IH [OF ps] ks by (simp add: keysOf_def)
  finally show ?case by simp
qed simp

lemma newMap_last:
  "entityPairs S h es = Inr pairs \<Longrightarrow> newMap pairs k = Some v \<Longrightarrow>
     \<exists>es1 es2. es = es1 @ v # es2 \<and> k \<in> keysOf S h v \<and> (\<forall>e \<in> set es2. k \<notin> keysOf S h e)"
proof (induction es arbitrary: pairs)
  case (Cons e es)
  from Cons.prems(1) obtain ks ps where ks: "makeEntityMapKeys S h (optp h e ''sys'') = Inr ks"
    and ps: "entityPairs S h es = Inr ps" and pairs: "pairs = map (\<lambda>key. (key, e)) ks @ ps"
    unfolding entityPairs_Cons by blast
  show ?case
  proof (cases "newMap ps k")
    case (Some w)
    then have "w = v" using Cons.prems(2) by (simp add: pairs newMap_append)
    with Some Cons.IH [OF ps] obtain es1 es2 where
      "es = es1 @ v # es2 \<and> k \<in> keysOf S h v \<and> (\<forall>e \<in> set es2. k \<notin> keysOf S h e)" by blast
    then have "e # es = (e # es1) @ v # es2 \<and> k \<in> keysOf S h v \<and> (\<forall>e \<in> set es2. k \<notin> keysOf S h e)"
      by simp
    then show ?thesis by blast
  next
    case None
    then have n: "k \<notin> fst ` set ps" using newMap_dom [of ps] by blast
    have m: "newMap (map (\<lambda>key. (key, e)) ks) k = Some v"
      using Cons.prems(2) None by (simp add: pairs newMap_append)
    then have "k \<in> set ks" using newMap_dom [of "map (\<lambda>key. (key, e)) ks"] by (auto simp: image_image)
    moreover from this m have "v = e" by (simp add: newMap_const)
    ultimately have "e # es = [] @ v # es \<and> k \<in> keysOf S h v \<and> (\<forall>e \<in> set es. k \<notin> keysOf S h e)"
      using n entityPairs_keys [OF ps] ks by (auto simp: keysOf_def)
    then show ?thesis by blast
  qed
qed (simp add: newMap_def)

lemma keepEntities_filter:
  "keepEntities h vs = Inr es \<Longrightarrow> es = filter (\<lambda>e. truthy (optp h e ''sys'')) vs"
proof (induction vs arbitrary: es)
  case (Cons v vs)
  then show ?case by (auto simp: bnd_eq_Inr getp_Inr_iff split: if_splits)
qed simp

section \<open>The entity index and the lookup of links\<close>

text \<open>
  C1, as the claim states it, fails: a record with a space and an environment is followed by
  a record of the same kind and id; the global key then leads to the later record, the
  scoped key to the earlier one.
\<close>

theorem entityMap_scoped_overridden:
  "entityPairs objectString (storeOf scopedThenPlain) (valuesOf scopedThenPlain) =
     Inr [(''Entry!x'', Ref 5), (''S!E!Entry!x'', Ref 5), (''Entry!x'', Ref 7)] \<and>
   makeEntityMapKeys objectString (storeOf scopedThenPlain)
       (optp (storeOf scopedThenPlain) (Ref 5) ''sys'') = Inr [''Entry!x'', ''S!E!Entry!x''] \<and>
   newMap [(''Entry!x'', Ref 5), (''S!E!Entry!x'', Ref 5), (''Entry!x'', Ref 7)] ''Entry!x'' = Some (Ref 7) \<and>
   newMap [(''Entry!x'', Ref 5), (''S!E!Entry!x'', Ref 5), (''Entry!x'', Ref 7)] ''S!E!Entry!x'' = Some (Ref 5)"
proof (intro conjI)
  show "entityPairs objectString (storeOf scopedThenPlain) (valuesOf scopedThenPlain) =
     Inr [(''Entry!x'', Ref 5), (''S!E!Entry!x'', Ref 5), (''Entry!x'', Ref 7)]"
    by code_simp
  show "makeEntityMapKeys objectString (storeOf scopedThenPlain)
       (optp (storeOf scopedThenPlain) (Ref 5) ''sys'') = Inr [''Entry!x'', ''S!E!Entry!x'']"
    by code_simp
qed (simp_all add: newMap_def)

text \<open>
  C1, amended.  For every record whose identity block carries both a space and an
  environment, \<open>makeEntityMapKeys\<close> returns the global key \<open>{kind}!{id}\<close> and the
  scoped key \<open>{spaceId}!{environmentId}!{kind}!{id}\<close>.  Each of the two keys on its own:
  the index maps it to this record when no later record of the flattened list registers
  it, and to the last of the later records that register it otherwise.  Resolving a
  direct-link node looks up the global key \<open>{linkType}!{id}\<close> only.
\<close>

theorem entityMap_both_keys:
  assumes pairs: "entityPairs S h (before @ record # after) = Inr pairs"
    and sys: "sys = optp h record ''sys''"
    and space: "truthy (optp h (optp h sys ''space'') ''sys'')"
    and env: "truthy (optp h (optp h sys ''environment'') ''sys'')"
    and g: "g = globalKey S h (optp h sys ''type'') (optp h sys ''id'')"
    and s: "s = scopedKey S h (optp h (optp h (optp h sys ''space'') ''sys'') ''id'')
                  (optp h (optp h (optp h sys ''environment'') ''sys'') ''id'')
                  (optp h sys ''type'') (optp h sys ''id'')"
  shows "makeEntityMapKeys S h sys = Inr [g, s] \<and>
         (\<forall>k. k = g \<or> k = s \<longrightarrow>
            ((\<forall>e \<in> set after. k \<notin> keysOf S h e) \<longrightarrow> newMap pairs k = Some record) \<and>
            ((\<exists>e \<in> set after. k \<in> keysOf S h e) \<longrightarrow>
               (\<exists>es1 e es2. after = es1 @ e # es2 \<and> k \<in> keysOf S h e \<and>
                  (\<forall>e' \<in> set es2. k \<notin> keysOf S h e') \<and> newMap pairs k = Some e))) \<and>
         (isLink h link \<longrightarrow>
            getResolvedLink S h (newMap pairs) link =
              Inr (orUnresolved (newMap pairs
                 (globalKey S h (optp h (optp h link ''sys'') ''linkType'')
                    (optp h (optp h link ''sys'') ''id'')))))"
proof -
  obtain p1 p2 where p: "entityPairs S h before = Inr p1"
      "entityPairs S h (record # after) = Inr p2" "pairs = p1 @ p2"
    using pairs entityPairs_append by blast
  obtain ks later where ks: "makeEntityMapKeys S h sys = Inr ks"
      and later: "entityPairs S h after = Inr later"
      and p2: "p2 = map (\<lambda>key. (key, record)) ks @ later"
    using p(2) unfolding entityPairs_Cons sys by auto
  have "sys \<noteq> Undef \<and> sys \<noteq> Null" using ks by (rule makeEntityMapKeys_Inr)
  then have k: "ks = [g, s]"
    using ks space env g s makeEntityMapKeys_defined [of sys S h] by simp
  have keys: "fst ` set later = (\<Union>e \<in> set after. keysOf S h e)"
    using later by (rule entityPairs_keys)
  have 1: "newMap pairs k = Some record" if "k \<in> set ks" "\<forall>e \<in> set after. k \<notin> keysOf S h e" for k
  proof -
    have "k \<notin> fst ` set later" using that(2) keys by simp
    then show ?thesis unfolding p(3) p2 using that(1)
      by (simp add: newMap_append newMap_None newMap_const)
  qed
  have 2: "\<exists>es1 e es2. after = es1 @ e # es2 \<and> k \<in> keysOf S h e \<and>
      (\<forall>e' \<in> set es2. k \<notin> keysOf S h e') \<and> newMap pairs k = Some e"
    if "\<exists>e \<in> set after. k \<in> keysOf S h e" for k
  proof -
    have "k \<in> dom (newMap later)" using that keys by (simp add: newMap_dom)
    then obtain v where v: "newMap later k = Some v" by blast
    then have "newMap pairs k = Some v" unfolding p(3) p2 by (simp add: newMap_append)
    then show ?thesis using newMap_last [OF later v] by blast
  qed
  show ?thesis using k ks 1 2 getResolvedLink_direct by simp
qed

text \<open>
  A record with both keys, a record that links to it, and a later record of the same kind and
  id: the scoped key leads to the first record, the global key and the direct link to the
  later one.
\<close>

theorem entityMap_both_keys_witness:
  "makeEntityMapKeys objectString (storeOf scopedLinkerPlain) (Ref 4) =
      Inr [''Entry!x'', ''S!E!Entry!x''] \<and>
   entityPairs objectString (storeOf scopedLinkerPlain) [Ref 5, Ref 9, Ref 11] =
      Inr [(''Entry!x'', Ref 5), (''S!E!Entry!x'', Ref 5), (''Entry!y'', Ref 9), (''Entry!x'', Ref 11)] \<and>
   newMap [(''Entry!x'', Ref 5), (''S!E!Entry!x'', Ref 5), (''Entry!y'', Ref 9), (''Entry!x'', Ref 11)]
      ''S!E!Entry!x'' = Some (Ref 5) \<and>
   newMap [(''Entry!x'', Ref 5), (''S!E!Entry!x'', Ref 5), (''Entry!y'', Ref 9), (''Entry!x'', Ref 11)]
      ''Entry!x'' = Some (Ref 11) \<and>
   isLink (storeOf scopedLinkerPlain) (Ref 8) \<and>
   getResolvedLink objectString (storeOf scopedLinkerPlain)
     (newMap [(''Entry!x'', Ref 5), (''S!E!Entry!x'', Ref 5), (''Entry!y'', Ref 9), (''Entry!x'', Ref 11)])
     (Ref 8) = Inr (Ref 11)"
proof -
  let ?h = "storeOf scopedLinkerPlain"
  let ?ps = "[(''Entry!x'', Ref 5), (''S!E!Entry!x'', Ref 5), (''Entry!y'', Ref 9), (''Entry!x'', Ref 11)]"
  have 1: "entityPairs objectString ?h ([] @ Ref 5 # [Ref 9, Ref 11]) = Inr ?ps" by code_simp
  have 3: "Ref 4 = optp ?h (Ref 5) ''sys''" by code_simp
  have 4: "truthy (optp ?h (optp ?h (Ref 4) ''space'') ''sys'')" by code_simp
  have 5: "truthy (optp ?h (optp ?h (Ref 4) ''environment'') ''sys'')" by code_simp
  have 6: "''Entry!x'' = globalKey objectString ?h (optp ?h (Ref 4) ''type'') (optp ?h (Ref 4) ''id'')"
    by code_simp
  have 7: "''S!E!Entry!x'' = scopedKey objectString ?h
      (optp ?h (optp ?h (optp ?h (Ref 4) ''space'') ''sys'') ''id'')
      (optp ?h (optp ?h (optp ?h (Ref 4) ''environment'') ''sys'') ''id'')
      (optp ?h (Ref 4) ''type'') (optp ?h (Ref 4) ''id'')"
    by code_simp
  note T = entityMap_both_keys [OF 1 3 4 5 6 7, of "Ref 8"]
  have "makeEntityMapKeys objectString ?h (optp ?h (Ref 9) ''sys'') = Inr [''Entry!y'']"
    "makeEntityMapKeys objectString ?h (optp ?h (Ref 11) ''sys'') = Inr [''Entry!x'']"
    by code_simp+
  then have k: "keysOf objectString ?h (Ref 9) = {''Entry!y''}"
    "keysOf objectString ?h (Ref 11) = {''Entry!x''}"
    by (simp_all add: keysOf_def)
  have a: "makeEntityMapKeys objectString ?h (Ref 4) = Inr [''Entry!x'', ''S!E!Entry!x'']"
    using T by (rule conjunct1)
  have per: "\<forall>k. k = ''Entry!x'' \<or> k = ''S!E!Entry!x'' \<longrightarrow>
       ((\<forall>e \<in> set [Ref 9, Ref 11]. k \<notin> keysOf objectString ?h e) \<longrightarrow> newMap ?ps k = Some (Ref 5)) \<and>
       ((\<exists>e \<in> set [Ref 9, Ref 11]. k \<in> keysOf objectString ?h e) \<longrightarrow>
          (\<exists>es1 e es2. [Ref 9, Ref 11] = es1 @ e # es2 \<and> k \<in> keysOf objectString ?h e \<and>
             (\<forall>e' \<in> set es2. k \<notin> keysOf objectString ?h e') \<and> newMap ?ps k = Some e))"
    by (rule T [THEN conjunct2, THEN conjunct1])
  have nS: "\<forall>e \<in> set [Ref 9, Ref 11]. ''S!E!Entry!x'' \<notin> keysOf objectString ?h e" using k by simp
  have perS: "((\<forall>e \<in> set [Ref 9, Ref 11]. ''S!E!Entry!x'' \<notin> keysOf objectString ?h e) \<longrightarrow>
        newMap ?ps ''S!E!Entry!x'' = Some (Ref 5)) \<and>
       ((\<exists>e \<in> set [Ref 9, Ref 11]. ''S!E!Entry!x'' \<in> keysOf objectString ?h e) \<longrightarrow>
          (\<exists>es1 e es2. [Ref 9, Ref 11] = es1 @ e # es2 \<and> ''S!E!Entry!x'' \<in> keysOf objectString ?h e \<and>
             (\<forall>e' \<in> set es2. ''S!E!Entry!x'' \<notin> keysOf objectString ?h e') \<and>
             newMap ?ps ''S!E!Entry!x'' = Some e))"
    using per [THEN spec, of "''S!E!Entry!x''"] by (rule mp) (rule disjI2, rule refl)
  have b: "newMap ?ps ''S!E!Entry!x'' = Some (Ref 5)" using perS [THEN conjunct1] nS by (rule mp)
  have yG: "\<exists>e \<in> set [Ref 9, Ref 11]. ''Entry!x'' \<in> keysOf objectString ?h e" using k by simp
  have perG: "((\<forall>e \<in> set [Ref 9, Ref 11]. ''Entry!x'' \<notin> keysOf objectString ?h e) \<longrightarrow>
        newMap ?ps ''Entry!x'' = Some (Ref 5)) \<and>
       ((\<exists>e \<in> set [Ref 9, Ref 11]. ''Entry!x'' \<in> keysOf objectString ?h e) \<longrightarrow>
          (\<exists>es1 e es2. [Ref 9, Ref 11] = es1 @ e # es2 \<and> ''Entry!x'' \<in> keysOf objectString ?h e \<and>
             (\<forall>e' \<in> set es2. ''Entry!x'' \<notin> keysOf objectString ?h e') \<and>
             newMap ?ps ''Entry!x'' = Some e))"
    using per [THEN spec, of "''Entry!x''"] by (rule mp) (rule disjI1, rule refl)
  have "\<exists>es1 e es2. [Ref 9, Ref 11] = es1 @ e # es2 \<and> ''Entry!x'' \<in> keysOf objectString ?h e \<and>
             (\<forall>e' \<in> set es2. ''Entry!x'' \<notin> keysOf objectString ?h e') \<and>
             newMap ?ps ''Entry!x'' = Some e"
    using perG [THEN conjunct2] yG by (rule mp)
  then obtain es1 e es2 where e: "[Ref 9, Ref 11] = es1 @ e # es2"
      "''Entry!x'' \<in> keysOf objectString ?h e" "newMap ?ps ''Entry!x'' = Some e"
    by (elim exE conjE)
  have "e \<in> set (es1 @ e # es2)" by simp
  then have "e \<in> set [Ref 9, Ref 11]" unfolding e(1) [symmetric] .
  then have "e = Ref 9 \<or> e = Ref 11" by simp
  moreover have "e \<noteq> Ref 9"
  proof
    assume "e = Ref 9"
    then have "''Entry!x'' \<in> {''Entry!y''}" using e(2) k(1) by simp
    then show False by simp
  qed
  ultimately have "e = Ref 11" by simp
  then have c: "newMap ?ps ''Entry!x'' = Some (Ref 11)" using e(3) by simp
  have 9: "isLink ?h (Ref 8)" by code_simp
  have 10: "globalKey objectString ?h (optp ?h (optp ?h (Ref 8) ''sys'') ''linkType'')
      (optp ?h (optp ?h (Ref 8) ''sys'') ''id'') = ''Entry!x''" by code_simp
  have "getResolvedLink objectString ?h (newMap ?ps) (Ref 8) =
      Inr (orUnresolved (newMap ?ps (globalKey objectString ?h
         (optp ?h (optp ?h (Ref 8) ''sys'') ''linkType'') (optp ?h (optp ?h (Ref 8) ''sys'') ''id''))))"
    using T [THEN conjunct2, THEN conjunct2] 9 by (rule mp)
  then have d: "getResolvedLink objectString ?h (newMap ?ps) (Ref 8) = Inr (Ref 11)"
    unfolding 10 c by (simp add: orUnresolved_def)
  have p: "entityPairs objectString ?h [Ref 5, Ref 9, Ref 11] = Inr ?ps" by code_simp
  show ?thesis by (intro conjI a p b c 9 d)
qed




text \<open>
  C8, as the claim states it, fails: of two records with the same kind and id only the
  later one is in the index; the earlier one is registered under no key.
\<close>

theorem entityMap_twin_unregistered:
  "keepEntities (storeOf twins) (valuesOf twins @ concat []) = Inr [Ref 1, Ref 3] \<and>
   entityPairs objectString (storeOf twins) [Ref 1, Ref 3] =
     Inr [(''Entry!x'', Ref 1), (''Entry!x'', Ref 3)] \<and>
   makeEntityMapKeys objectString (storeOf twins) (optp (storeOf twins) (Ref 1) ''sys'') =
     Inr [''Entry!x''] \<and>
   newMap [(''Entry!x'', Ref 1), (''Entry!x'', Ref 3)] ''Entry!x'' = Some (Ref 3) \<and>
   Ref 1 \<notin> ran (newMap [(''Entry!x'', Ref 1), (''Entry!x'', Ref 3)])"
proof (intro conjI)
  show "keepEntities (storeOf twins) (valuesOf twins @ concat []) = Inr [Ref 1, Ref 3]"
    by code_simp
  show "entityPairs objectString (storeOf twins) [Ref 1, Ref 3] =
     Inr [(''Entry!x'', Ref 1), (''Entry!x'', Ref 3)]"
    by code_simp
  show "makeEntityMapKeys objectString (storeOf twins) (optp (storeOf twins) (Ref 1) ''sys'') =
     Inr [''Entry!x'']"
    by code_simp
qed (auto simp: newMap_def ran_def)

text \<open>
  C8, amended.  After the index-building step the surviving records are the items and the
  included records that have an identity block; index building succeeds on them; the keys
  of the index are exactly the keys these records qualify for, each bound once, to the
  last record of the flattened list that qualifies for it.
\<close>

theorem entityMap_registers_last:
  assumes "keepEntities h (its @ concat incs) = Inr allEntries"
  shows "allEntries = filter (\<lambda>e. truthy (optp h e ''sys'')) (its @ concat incs) \<and>
         (\<exists>pairs. entityPairs S h allEntries = Inr pairs \<and>
            dom (newMap pairs) = (\<Union>e \<in> set allEntries. keysOf S h e) \<and>
            (\<forall>k v. newMap pairs k = Some v \<longrightarrow>
               (\<exists>es1 es2. allEntries = es1 @ v # es2 \<and> k \<in> keysOf S h v \<and>
                  (\<forall>e \<in> set es2. k \<notin> keysOf S h e))))"
proof -
  have f: "allEntries = filter (\<lambda>e. truthy (optp h e ''sys'')) (its @ concat incs)"
    using assms by (rule keepEntities_filter)
  then have "\<forall>e \<in> set allEntries. truthy (optp h e ''sys'')" by auto
  then obtain pairs where p: "entityPairs S h allEntries = Inr pairs"
    using entityPairs_total by blast
  have "dom (newMap pairs) = (\<Union>e \<in> set allEntries. keysOf S h e)"
    using entityPairs_keys [OF p] by (simp add: newMap_dom)
  then show ?thesis using f p newMap_last [OF p] by blast
qed

theorem entityMap_registers_last_witness:
  "keepEntities (storeOf scopedAndLinker) (valuesOf scopedAndLinker @ concat []) =
      Inr [Ref 5, Ref 11] \<and>
   (\<exists>pairs. entityPairs objectString (storeOf scopedAndLinker) [Ref 5, Ref 11] = Inr pairs \<and>
      dom (newMap pairs) = (\<Union>e \<in> set [Ref 5, Ref 11]. keysOf objectString (storeOf scopedAndLinker) e) \<and>
      (\<forall>k v. newMap pairs k = Some v \<longrightarrow>
         (\<exists>es1 es2. [Ref 5, Ref 11] = es1 @ v # es2 \<and>
            k \<in> keysOf objectString (storeOf scopedAndLinker) v \<and>
            (\<forall>e \<in> set es2. k \<notin> keysOf objectString (storeOf scopedAndLinker) e))))"
proof -
  have k: "keepEntities (storeOf scopedAndLinker) (valuesOf scopedAndLinker @ concat []) =
      Inr [Ref 5, Ref 11]" by code_simp
  show ?thesis using k entityMap_registers_last [OF k, of objectString] by blast
qed

section \<open>Runs on example responses\<close>

text \<open>
  C3.  The claim is that the Unresolved marker never appears in the returned items.  On the
  response whose first item is a link to the second, resolved with pruning, the first item
  takes over the array of the second by \<open>Object.assign\<close>; the walk of the second item
  writes the marker into that array before \<open>filter\<close> builds the pruned copy, and the
  first item keeps the array with the marker.  This holds for every stack of three frames
  or more.
\<close>

theorem resolveResponse_leaks_marker:
  "resolveResponse objectString (Suc (Suc (Suc n))) linkItemBeforeTarget prune =
     Inr ([Ref 1, Ref 6], leakedStore) \<and>
   pathAt leakedStore (Ref 1) [Name ''arr'', Index 0] = Unres"
  by code_simp

lemma throws_deep:
  "resolveResponse objectString (Suc (Suc (Suc n))) resourceLinkWithoutKind keepAll = Inl TypeError"
  by code_simp

lemma throws_shallow:
  "resolveResponse objectString 0 resourceLinkWithoutKind keepAll = Inl RangeError"
  "resolveResponse objectString (Suc 0) resourceLinkWithoutKind keepAll = Inl RangeError"
  "resolveResponse objectString (Suc (Suc 0)) resourceLinkWithoutKind keepAll = Inl RangeError"
  by code_simp+

text \<open>
  C4.  The claim is that \<open>resolveResponse\<close> never throws, whatever the \<open>linkType\<close> and
  the \<open>urn\<close> of a cross-scope link contain.  With a URN that decodes and no \<open>linkType\<close>
  the call of \<open>split\<close> throws outside the \<open>try\<close> block, whatever the size of the stack.
\<close>

theorem resolveResponse_throws_on_resource_link:
  "resolveResponse objectString fuel resourceLinkWithoutKind keepAll =
     Inl (if fuel < 3 then RangeError else TypeError)"
proof -
  consider "fuel = 0" | "fuel = Suc 0" | "fuel = Suc (Suc 0)" | n where "fuel = Suc (Suc (Suc n))"
    by (metis not0_implies_Suc)
  then show ?thesis using throws_deep throws_shallow by cases simp_all
qed

section \<open>A second run\<close>












lemma update_same: "map_of kvs k = Some v \<Longrightarrow> AList.update k v kvs = kvs"
  by (induction kvs) auto

lemma readKey_in_values: "readKey c k = Some x \<Longrightarrow> x \<in> set (cellValues c)"
proof (cases c)
  case (CObj kvs)
  assume "readKey c k = Some x"
  with CObj show ?thesis by (cases k) (force dest: map_of_SomeD)+
next
  case (CArr vs)
  assume "readKey c k = Some x"
  with CArr show ?thesis by (cases k) (auto split: if_splits)
qed

lemma writeKey_same: "readKey c k = Some x \<Longrightarrow> writeKey c k x = c"
proof (cases c)
  case (CObj kvs)
  assume "readKey c k = Some x"
  with CObj show ?thesis by (cases k) (auto simp: update_same)
next
  case (CArr vs)
  assume "readKey c k = Some x"
  with CArr show ?thesis by (cases k) (auto split: if_splits)
qed

lemma store_unchanged: "writeKey (cellAt h a) k x = cellAt h a \<Longrightarrow> store h a k x = h"
proof (cases "a < length h")
  case True
  assume "writeKey (cellAt h a) k x = cellAt h a"
  then have "store h a k x = h[a := h ! a]" using True by (simp add: store_def cellAt_def)
  then show ?thesis by simp
next
  case False
  then have "length h \<le> a" by simp
  then show ?thesis by (simp add: store_def list_update_beyond)
qed

lemma store_same: "readKey (cellAt h a) k = Some x \<Longrightarrow> store h a k x = h"
  by (simp add: store_unchanged writeKey_same)

lemma store_asName_same: "readKey (cellAt h a) k = Some x \<Longrightarrow> store h a (asName k) x = h"
proof (cases k)
  case (Name s)
  assume "readKey (cellAt h a) k = Some x"
  then show ?thesis using Name by (simp add: asName_def store_same)
next
  case (Index i)
  assume r: "readKey (cellAt h a) k = Some x"
  then obtain vs where "cellAt h a = CArr vs" using Index by (cases "cellAt h a") auto
  then show ?thesis using Index by (simp add: store_unchanged asName_def)
qed



lemma objectAssign_self: "objectAssign h v v = h"
proof (cases v)
  case (Ref t)
  have "fold (\<lambda>k h'. case readKey (cellAt h' t) k of Some v \<Rightarrow> store h' t (asName k) v | None \<Rightarrow> h') ks h = h"
    for ks
  proof (induction ks)
    case (Cons k ks)
    then show ?case by (cases "readKey (cellAt h t) k") (auto simp: store_asName_same)
  qed simp
  then show ?thesis using Ref by (simp add: objectAssign_def)
qed (simp_all add: objectAssign_def)






section \<open>The walk stays inside the tree it is given\<close>

inductive_cases tree_RefE: "tree d h (Ref a) A"

inductive_cases trees_ConsE: "trees d h (v # vs) B"

inductive_cases trees_NilE: "trees d h [] B"

lemma tree_bound:
  "tree d h v A \<Longrightarrow> \<forall>a \<in> A. a < length h"
  "trees d h vs B \<Longrightarrow> \<forall>a \<in> B. a < length h"
  by (induction rule: tree_trees.inducts) auto

lemma cellAt_eq: "a < length h \<Longrightarrow> a < length h' \<Longrightarrow> h' ! a = h ! a \<Longrightarrow> cellAt h' a = cellAt h a"
  by (simp add: cellAt_def)

lemma tree_frame:
  "tree d h v A \<Longrightarrow> length h \<le> length h' \<Longrightarrow> (\<forall>a \<in> A. h' ! a = h ! a) \<Longrightarrow> tree d h' v A"
  "trees d h vs B \<Longrightarrow> length h \<le> length h' \<Longrightarrow> (\<forall>a \<in> B. h' ! a = h ! a) \<Longrightarrow> trees d h' vs B"
proof (induction arbitrary: h' and h' rule: tree_trees.inducts)
  case (node a h d B)
  then have c: "cellAt h' a = cellAt h a" by (simp add: cellAt_def)
  have "trees d h' (cellValues (cellAt h a)) B" using node by simp
  then show ?case using node.hyps node.prems c tree_trees.node [of a h' d B] by simp
qed (auto intro: tree_trees.intros)

lemma tree_mono:
  "tree d h v A \<Longrightarrow> d \<le> d' \<Longrightarrow> tree d' h v A"
  "trees d h vs B \<Longrightarrow> d \<le> d' \<Longrightarrow> trees d' h vs B"
proof (induction arbitrary: d' and d' rule: tree_trees.inducts)
  case (node a h d B)
  then obtain e where e: "d' = Suc e" "d \<le> e" by (cases d') auto
  then show ?case using node tree_trees.node [of a h e B] by simp
qed (auto intro: tree_trees.intros)

lemma frames_refl [simp]: "frames h A h" by (simp add: frames_def)

lemma frames_trans: "frames h A h1 \<Longrightarrow> frames h1 B h2 \<Longrightarrow> A \<subseteq> C \<Longrightarrow> B \<subseteq> C \<Longrightarrow> frames h C h2"
proof -
  assume a: "frames h A h1" "frames h1 B h2" "A \<subseteq> C" "B \<subseteq> C"
  have "h2 ! x = h ! x" if "x < length h" "x \<notin> C" for x
  proof -
    have "h1 ! x = h ! x" using a(1,3) that by (auto simp: frames_def)
    moreover have "x < length h1" "x \<notin> B" using a(1,4) that by (auto simp: frames_def)
    then have "h2 ! x = h1 ! x" using a(2) by (simp add: frames_def)
    ultimately show ?thesis by simp
  qed
  then show ?thesis using a(1,2) by (simp add: frames_def)
qed

lemma frames_mono: "frames h A h' \<Longrightarrow> A \<subseteq> B \<Longrightarrow> frames h B h'"
  unfolding frames_def by blast

lemma frames_store: "frames h {a} (store h a k x)"
  by (simp add: frames_def store_def)

lemma frames_update: "frames h {a} (h[a := c])"
  by (simp add: frames_def)

lemma frames_append: "frames h A (h @ cs)"
  by (simp add: frames_def nth_append)

lemma frames_cleanUpLinks_Ref: "frames h {a} (snd (cleanUpLinks h (Ref a)))"
  by (cases "cellAt h a") (simp_all add: cleanUpLinks_def frames_update frames_append)

lemma cleanUpLinks_other: "(\<And>a. v \<noteq> Ref a) \<Longrightarrow> cleanUpLinks h v = (v, h)"
  by (cases v) (auto simp: cleanUpLinks_def)

lemma frames_agree: "frames h C h' \<Longrightarrow> A \<inter> C = {} \<Longrightarrow> \<forall>a \<in> A. a < length h \<Longrightarrow> \<forall>a \<in> A. h' ! a = h ! a"
  unfolding frames_def by blast

lemma tree_frames:
  assumes "frames h C h'"
  shows "tree d h v A \<Longrightarrow> A \<inter> C = {} \<Longrightarrow> tree d h' v A"
    and "trees d h vs B \<Longrightarrow> B \<inter> C = {} \<Longrightarrow> trees d h' vs B"
proof -
  have l: "length h \<le> length h'" using assms by (simp add: frames_def)
  show "tree d h' v A" if t: "tree d h v A" and "A \<inter> C = {}"
    using tree_frame(1) [OF t l] frames_agree [OF assms that(2) tree_bound(1) [OF t]] by blast
  show "trees d h' vs B" if t: "trees d h vs B" and "B \<inter> C = {}"
    using tree_frame(2) [OF t l] frames_agree [OF assms that(2) tree_bound(2) [OF t]] by blast
qed

lemma cellAt_frames: "frames h C h' \<Longrightarrow> a < length h \<Longrightarrow> a \<notin> C \<Longrightarrow> cellAt h' a = cellAt h a"
  by (simp add: frames_def cellAt_def)

lemma readKey_writeKey_other:
  "k' \<noteq> k \<Longrightarrow> readKey c k = Some y \<Longrightarrow> readKey (writeKey c k x) k' = readKey c k'"
proof (cases c)
  case (CObj kvs)
  assume "k' \<noteq> k" "readKey c k = Some y"
  with CObj show ?thesis by (cases k; cases k') (auto simp: update_conv')
next
  case (CArr vs)
  assume "k' \<noteq> k" "readKey c k = Some y"
  with CArr show ?thesis by (cases k; cases k') (auto split: if_splits)
qed

lemma reads_writeKey:
  "k \<notin> set ks \<Longrightarrow> readKey c k = Some y \<Longrightarrow> reads (writeKey c k x) ks = reads c ks"
  by (induction ks) (auto simp: reads_def readKey_writeKey_other List.map_filter_simps split: option.splits)

lemma cellAt_store: "a < length h \<Longrightarrow> cellAt (store h a k x) a = writeKey (cellAt h a) k x"
  by (simp add: store_def cellAt_def)

lemma map_filter_total: "\<forall>x \<in> set xs. f x = Some (g x) \<Longrightarrow> List.map_filter f xs = map g xs"
  by (induction xs) (simp_all add: List.map_filter_simps)

lemma reads_ownKeys: "distinct (ownKeys c) \<Longrightarrow> reads c (ownKeys c) = cellValues c"
proof (cases c)
  case (CObj kvs)
  assume "distinct (ownKeys c)"
  then have "distinct (map fst kvs)" using CObj by (simp add: distinct_map inj_on_def) 
  then have "List.map_filter (\<lambda>k. readKey (CObj (pre @ kvs)) k) (map (\<lambda>kv. Name (fst kv)) kvs) = map snd kvs"
    if "\<forall>k \<in> fst ` set kvs. k \<notin> fst ` set pre" for pre
    using that
  proof (induction kvs arbitrary: pre)
    case (Cons kv kvs)
    have "map_of pre (fst kv) = None" using Cons.prems(2) by (simp add: map_of_eq_None_iff)
    then have "map_of (pre @ kv # kvs) (fst kv) = Some (snd kv)"
      by (cases kv) (simp add: map_add_def)
    moreover have "List.map_filter (\<lambda>k. readKey (CObj ((pre @ [kv]) @ kvs)) k)
        (map (\<lambda>kv. Name (fst kv)) kvs) = map snd kvs"
    proof (intro Cons.IH)
      show "distinct (map fst kvs)" using Cons.prems(1) by simp
      have "fst kv \<notin> fst ` set kvs" using Cons.prems(1) by simp
      then show "\<forall>k \<in> fst ` set kvs. k \<notin> fst ` set (pre @ [kv])"
        using Cons.prems(2) by force
    qed
    ultimately show ?case by (simp add: List.map_filter_simps)
  qed (simp add: List.map_filter_simps)
  from this [of "[]"] show ?thesis using CObj by (simp add: reads_def)
next
  case (CArr vs)
  have "List.map_filter (readKey (CArr vs)) (map Index [0..<length vs]) =
      map (\<lambda>k. case k of Index i \<Rightarrow> vs ! i | Name s \<Rightarrow> Undef) (map Index [0..<length vs])"
    by (intro map_filter_total) auto
  also have "\<dots> = map (\<lambda>i. vs ! i) [0..<length vs]" by (simp add: comp_def)
  finally show ?thesis using CArr by (simp add: reads_def map_nth)
qed

lemma safely_Inl [simp]: "safely room (Inl e) Q = (e = RangeError \<longrightarrow> \<not> room)"
  by (simp add: safely_def)

lemma safely_Inr [simp]: "safely room (Inr x) Q = Q x"
  by (simp add: safely_def)

lemma safely_bnd:
  "safely room m Q \<Longrightarrow> (\<And>x. m = Inr x \<Longrightarrow> Q x \<Longrightarrow> safely room (f x) R) \<Longrightarrow>
     safely room (bnd m f) R"
  by (cases m) simp_all

lemma safely_mono: "safely room m Q \<Longrightarrow> (\<And>x. m = Inr x \<Longrightarrow> Q x \<Longrightarrow> R x) \<Longrightarrow> safely room m R"
  by (cases m) simp_all

lemma safely_room: "safely room m Q \<Longrightarrow> (room' \<Longrightarrow> room) \<Longrightarrow> safely room' m Q"
  by (cases m) auto


lemma walkKeys_frame:
  assumes IH: "\<And>h v A. tree d h v A \<Longrightarrow>
      safely (d < n) (walkMutate n P M r h v) (\<lambda>res. frames h A (snd res))"
  shows "distinct ks \<Longrightarrow> trees d h (reads (cellAt h a) ks) B \<Longrightarrow> a \<notin> B \<Longrightarrow> a < length h \<Longrightarrow>
     safely (d < n) (walkKeys n P M r h a ks) (\<lambda>h'. frames h (insert a B) h')"
proof (induction ks arbitrary: h B)
  case Nil
  then show ?case by simp
next
  case (Cons k ks)
  show ?case
  proof (cases "readKey (cellAt h a) k")
    case None
    then have "reads (cellAt h a) (k # ks) = reads (cellAt h a) ks"
      by (simp add: reads_def List.map_filter_simps)
    then show ?thesis using Cons None by simp
  next
    case (Some x)
    then have "reads (cellAt h a) (k # ks) = x # reads (cellAt h a) ks"
      by (simp add: reads_def List.map_filter_simps)
    with Cons.prems(2) obtain A1 B1 where t: "tree d h x A1" "trees d h (reads (cellAt h a) ks) B1"
      "A1 \<inter> B1 = {}" "B = A1 \<union> B1"
      by (auto elim: trees_ConsE)
    have w: "safely (d < n) (walkMutate n P M r h x) (\<lambda>res. frames h A1 (snd res))"
      using IH t(1) by blast
    have "safely (d < n) (walkKeys n P M r (store (snd res) a k (fst res)) a ks) (\<lambda>h'. frames h (insert a B) h')"
      if f1: "frames h A1 (snd res)" for res
    proof -
      let ?h1 = "snd res" and ?h2 = "store (snd res) a k (fst res)"
      have a1: "a \<notin> A1" using Cons.prems(3) t(4) by simp
      have l1: "a < length ?h1" using f1 Cons.prems(4) by (simp add: frames_def)
      have c1: "cellAt ?h1 a = cellAt h a" using f1 Cons.prems(4) a1 by (rule cellAt_frames)
      have c2: "cellAt ?h2 a = writeKey (cellAt h a) k (fst res)"
        using l1 c1 by (simp add: cellAt_store)
      have r2: "reads (cellAt ?h2 a) ks = reads (cellAt h a) ks"
        unfolding c2 using Cons.prems(1) Some by (intro reads_writeKey) auto
      have f2: "frames h (insert a A1) ?h2"
        using f1 frames_store [of ?h1 a k "fst res"] by (rule frames_trans) auto
      have "trees d ?h2 (reads (cellAt h a) ks) B1"
        using f2 t(2) by (rule tree_frames(2)) (use t(3,4) Cons.prems(3) in auto)
      then have t2: "trees d ?h2 (reads (cellAt ?h2 a) ks) B1" by (simp only: r2)
      have l2: "a < length ?h2" using l1 by (simp add: store_def)
      have "safely (d < n) (walkKeys n P M r ?h2 a ks) (\<lambda>h'. frames ?h2 (insert a B1) h')"
        using Cons.prems(1,3) t(4) t2 l2 by (intro Cons.IH) auto
      then show ?thesis
      proof (rule safely_mono)
        fix h' assume "frames ?h2 (insert a B1) h'"
        with f2 show "frames h (insert a B) h'" by (rule frames_trans) (use t(4) in auto)
      qed
    qed
    then have "safely (d < n) (bnd (walkMutate n P M r h x)
        (\<lambda>res. walkKeys n P M r (store (snd res) a k (fst res)) a ks)) (\<lambda>h'. frames h (insert a B) h')"
      using w by (intro safely_bnd [where Q = "\<lambda>res. frames h A1 (snd res)"]) auto
    then show ?thesis using Some by simp
  qed
qed

lemma walkMutate_frame:
  assumes M: "\<And>h x. M h x \<noteq> Inl RangeError"
  shows "tree d h v A \<Longrightarrow> safely (d < n) (walkMutate n P M r h v) (\<lambda>res. frames h A (snd res))"
proof (induction n arbitrary: d h v A)
  case 0
  then show ?case by simp
next
  case (Suc n)
  show ?case
  proof (cases "P h v")
    case True
    then show ?thesis using M [of h v] by (cases "M h v") simp_all
  next
    case False
    show ?thesis
    proof (cases v)
      case (Ref a)
      with Suc.prems(1) obtain e B where n: "d = Suc e" "a < length h" "distinct (ownKeys (cellAt h a))"
        "trees e h (cellValues (cellAt h a)) B" "a \<notin> B" "A = insert a B"
        by (auto elim: tree_RefE)
      have "trees e h (reads (cellAt h a) (ownKeys (cellAt h a))) B"
        using n(3,4) by (simp add: reads_ownKeys)
      then have "safely (e < n) (walkKeys n P M r h a (ownKeys (cellAt h a))) (\<lambda>h'. frames h A h')"
        unfolding n(6) using n Suc.IH by (intro walkKeys_frame) auto
      then have k: "safely (d < Suc n) (walkKeys n P M r h a (ownKeys (cellAt h a))) (\<lambda>h'. frames h A h')"
        by (rule safely_room) (simp add: n(1))
      have "safely (d < Suc n) (bnd (walkKeys n P M r h a (ownKeys (cellAt h a)))
          (\<lambda>h'. Inr (if r then cleanUpLinks h' (Ref a) else (Ref a, h'))))
        (\<lambda>res. frames h A (snd res))"
        using k
      proof (rule safely_bnd)
        fix h' assume f: "frames h A h'"
        have "frames h A (snd (cleanUpLinks h' (Ref a)))"
          using f frames_cleanUpLinks_Ref [of h' a] by (rule frames_trans) (auto simp: n(6))
        then show "safely (d < Suc n) (Inr (if r then cleanUpLinks h' (Ref a) else (Ref a, h')))
            (\<lambda>res. frames h A (snd res))" using f by simp
      qed
      then show ?thesis using False Ref by simp
    qed (use False in simp_all)
  qed
qed

lemma represents_frames_aux:
  "tree d h v A \<Longrightarrow> frames h C h' \<Longrightarrow> A \<inter> C = {} \<Longrightarrow> represents h v t \<Longrightarrow> represents h' v t"
  "trees d h vs B \<Longrightarrow> frames h C h' \<Longrightarrow> B \<inter> C = {} \<Longrightarrow>
      (representsList h vs xs \<longrightarrow> representsList h' vs xs) \<and>
      (\<forall>kvs. map snd kvs = vs \<longrightarrow> representsFields h kvs fs \<longrightarrow> representsFields h' kvs fs)"
proof (induction arbitrary: t and xs fs rule: tree_trees.inducts)
  case (leaf v d h)
  have "\<forall>a. v \<noteq> Ref a" using leaf.hyps by blast
  then show ?case using leaf.prems by (cases t; cases v) auto
next
  case (node a h d B)
  note f = node.prems(1)
  have a: "a < length h'" "h' ! a = h ! a"
    using f node.hyps(1) node.prems(2) by (auto simp: frames_def)
  have c: "cellAt h a = h ! a" using node.hyps(1) by (simp add: cellAt_def)
  have b: "B \<inter> C = {}" using node.prems(2) by auto
  show ?case
  proof (cases t)
    case (JArr xs)
    then obtain vs where vs: "h ! a = CArr vs" "representsList h vs xs"
      using node.prems(3) by (auto split: cell.splits)
    then have "representsList h' vs xs" using node.IH [OF f b, of xs] c by simp
    then show ?thesis using JArr a vs(1) by simp
  next
    case (JObj fs)
    then obtain kvs where kvs: "h ! a = CObj kvs" "representsFields h kvs fs"
      using node.prems(3) by (auto split: cell.splits)
    then have "representsFields h' kvs fs" using node.IH [OF f b, of _ fs] c by simp
    then show ?thesis using JObj a kvs(1) by simp
  qed (use node.prems(3) in simp_all)
next
  case (nil d h)
  then show ?case by (cases xs; cases fs) simp_all
next
  case (cons d h v A vs B)
  note f = cons.prems(1)
  have d: "A \<inter> C = {}" "B \<inter> C = {}" using cons.prems(2) by auto
  have 1: "representsList h' (v # vs) xs" if "representsList h (v # vs) xs"
  proof (cases xs)
    case (Cons x xs')
    then show ?thesis using that cons.IH(1) [OF f d(1), of x] cons.IH(2) [OF f d(2), of xs'] by simp
  qed (use that in simp)
  have 2: "representsFields h' kvs fs" if m: "map snd kvs = v # vs" and r: "representsFields h kvs fs" for kvs
  proof (cases fs)
    case (Cons g fs')
    obtain kv kvs' where k: "kvs = kv # kvs'" "snd kv = v" "map snd kvs' = vs"
      using m by (cases kvs) auto
    then show ?thesis using r Cons cons.IH(1) [OF f d(1), of "snd g"]
        cons.IH(2) [OF f d(2), of _ fs'] by simp
  qed (use r in simp)
  show ?case using 1 2 by blast
qed

lemma represents_frames:
  "tree d h v A \<Longrightarrow> represents h v t \<Longrightarrow> frames h C h' \<Longrightarrow> A \<inter> C = {} \<Longrightarrow> represents h' v t"
  using represents_frames_aux(1) by blast

lemma representsList_frames:
  "trees d h vs B \<Longrightarrow> representsList h vs xs \<Longrightarrow> frames h C h' \<Longrightarrow> B \<inter> C = {} \<Longrightarrow>
     representsList h' vs xs"
  using represents_frames_aux(2) by blast

lemma representsFields_frames:
  "trees d h (map snd kvs) B \<Longrightarrow> representsFields h kvs fs \<Longrightarrow> frames h C h' \<Longrightarrow> B \<inter> C = {} \<Longrightarrow>
     representsFields h' kvs fs"
  using represents_frames_aux(2) by blast

lemma within_append: "within A h h1 \<Longrightarrow> within B h1 h2 \<Longrightarrow> within (A \<union> B) h h2"
  unfolding within_def by (elim conjE exE) (auto simp: subset_iff)

lemma within_disjoint: "within A h h1 \<Longrightarrow> within B h1 h2 \<Longrightarrow> A \<inter> B = {}"
proof -
  assume a: "within A h h1" "within B h1 h2"
  have "x \<notin> B" if "x \<in> A" for x
  proof -
    have "x < length h1" using a(1) that by (auto simp: within_def)
    then show ?thesis using a(2) by (auto simp: within_def)
  qed
  then show ?thesis by blast
qed

lemma within_frames: "within A h h' \<Longrightarrow> frames h C h'"
  unfolding within_def by (auto simp: frames_append)

lemma within_root: "within B h h1 \<Longrightarrow> within (insert (length h1) B) h (h1 @ [c])"
  unfolding within_def by (elim conjE exE) (auto simp: subset_iff)

lemma within_fresh: "within B h h1 \<Longrightarrow> length h1 \<notin> B"
  unfolding within_def by auto

lemma copy_shape:
  "wellFormed t \<Longrightarrow> \<exists>A. within A h (snd (copy t h)) \<and>
      tree (depth t) (snd (copy t h)) (fst (copy t h)) A \<and>
      represents (snd (copy t h)) (fst (copy t h)) t"
  "wellFormedList xs \<Longrightarrow> \<exists>B. within B h (snd (copyList xs h)) \<and>
      trees (depthList xs) (snd (copyList xs h)) (fst (copyList xs h)) B \<and>
      representsList (snd (copyList xs h)) (fst (copyList xs h)) xs"
  "wellFormedFields fs \<Longrightarrow> \<exists>B. within B h (snd (copyFields fs h)) \<and>
      trees (depthFields fs) (snd (copyFields fs h)) (map snd (fst (copyFields fs h))) B \<and>
      map fst (fst (copyFields fs h)) = map fst fs \<and>
      representsFields (snd (copyFields fs h)) (fst (copyFields fs h)) fs"
proof (induction t h and xs h and fs h rule: copy_copyList_copyFields.induct)
  case (5 xs h)
  obtain vs h1 where c: "copyList xs h = (vs, h1)" by (cases "copyList xs h")
  with 5 obtain B where B: "within B h h1" "trees (depthList xs) h1 vs B" "representsList h1 vs xs"
    by auto
  let ?h = "h1 @ [CArr vs]"
  have f: "frames h1 {} ?h" by (rule frames_append)
  have t: "trees (depthList xs) ?h vs B" using f B(2) by (rule tree_frames(2)) simp
  have "tree (Suc (depthList xs)) ?h (Ref (length h1)) (insert (length h1) B)"
    using t within_fresh [OF B(1)]
    by (intro tree_trees.node) (simp_all add: cellAt_def distinct_map inj_on_def)
  moreover have "representsList ?h vs xs" using B(2,3) f by (rule representsList_frames) simp
  ultimately show ?case using c within_root [OF B(1)] by auto
next
  case (6 fs h)
  obtain kvs h1 where c: "copyFields fs h = (kvs, h1)" by (cases "copyFields fs h")
  with 6 obtain B where B: "within B h h1" "trees (depthFields fs) h1 (map snd kvs) B"
      "map fst kvs = map fst fs" "representsFields h1 kvs fs"
    by auto
  let ?h = "h1 @ [CObj kvs]"
  have f: "frames h1 {} ?h" by (rule frames_append)
  have t: "trees (depthFields fs) ?h (map snd kvs) B" using f B(2) by (rule tree_frames(2)) simp
  have "distinct (map fst kvs)" using 6 B(3) by simp
  then have "distinct (map (\<lambda>kv. Name (fst kv)) kvs)"
    by (simp add: distinct_map inj_on_def)
  then have "tree (Suc (depthFields fs)) ?h (Ref (length h1)) (insert (length h1) B)"
    using t within_fresh [OF B(1)]
    by (intro tree_trees.node) (simp_all add: cellAt_def)
  moreover have "representsFields ?h kvs fs" using B(2,4) f by (rule representsFields_frames) simp
  ultimately show ?case using c within_root [OF B(1)] by auto
next
  case (8 x xs h)
  obtain v h1 where c1: "copy x h = (v, h1)" by (cases "copy x h")
  obtain vs h2 where c2: "copyList xs h1 = (vs, h2)" by (cases "copyList xs h1")
  from 8 c1 obtain A where A: "within A h h1" "tree (depth x) h1 v A" "represents h1 v x" by auto
  from 8(2) [OF c1 [symmetric]] 8(3) c2 obtain B where B: "within B h1 h2"
      "trees (depthList xs) h2 vs B" "representsList h2 vs xs" by auto
  have f: "frames h1 {} h2" using B(1) by (rule within_frames)
  have "tree (depth x) h2 v A" using f A(2) by (rule tree_frames(1)) simp
  then have "tree (max (depth x) (depthList xs)) h2 v A" by (rule tree_mono(1)) simp
  moreover have "trees (max (depth x) (depthList xs)) h2 vs B" using B(2) by (rule tree_mono(2)) simp
  ultimately have "trees (max (depth x) (depthList xs)) h2 (v # vs) (A \<union> B)"
    using within_disjoint [OF A(1) B(1)] by (rule tree_trees.cons)
  moreover have "represents h2 v x" using A(2,3) f by (rule represents_frames) simp
  ultimately show ?case using c1 c2 B(3) within_append [OF A(1) B(1)] by auto
next
  case (10 g fs h)
  obtain v h1 where c1: "copy (snd g) h = (v, h1)" by (cases "copy (snd g) h")
  obtain kvs h2 where c2: "copyFields fs h1 = (kvs, h2)" by (cases "copyFields fs h1")
  from 10 c1 obtain A where A: "within A h h1" "tree (depth (snd g)) h1 v A"
      "represents h1 v (snd g)" by auto
  from 10(2) [OF c1 [symmetric]] 10(3) c2 obtain B where B: "within B h1 h2"
      "trees (depthFields fs) h2 (map snd kvs) B" "map fst kvs = map fst fs"
      "representsFields h2 kvs fs" by auto
  have f: "frames h1 {} h2" using B(1) by (rule within_frames)
  have "tree (depth (snd g)) h2 v A" using f A(2) by (rule tree_frames(1)) simp
  then have "tree (max (depth (snd g)) (depthFields fs)) h2 v A" by (rule tree_mono(1)) simp
  moreover have "trees (max (depth (snd g)) (depthFields fs)) h2 (map snd kvs) B"
    using B(2) by (rule tree_mono(2)) simp
  ultimately have "trees (max (depth (snd g)) (depthFields fs)) h2 (v # map snd kvs) (A \<union> B)"
    using within_disjoint [OF A(1) B(1)] by (rule tree_trees.cons)
  moreover have "represents h2 v (snd g)" using A(2,3) f by (rule represents_frames) simp
  ultimately show ?case using c1 c2 B(3,4) within_append [OF A(1) B(1)] by auto
qed (auto simp: within_def intro: tree_trees.intros)

lemma tree_leaf_iff: "\<not> isRef v \<Longrightarrow> tree d h v A \<longleftrightarrow> A = {}"
  by (cases v) (auto elim: tree.cases intro: tree_trees.leaf)

lemma tree_root: "tree d h (Ref a) A \<Longrightarrow> a \<in> A"
  by (auto elim: tree_RefE)

lemma tree_unique:
  "tree d h v A \<Longrightarrow> tree d' h v A' \<Longrightarrow> A' = A"
  "trees d h vs B \<Longrightarrow> trees d' h vs B' \<Longrightarrow> B' = B"
proof (induction arbitrary: d' A' and d' B' rule: tree_trees.inducts)
  case (leaf v d h)
  then show ?case by (cases v) (auto elim: tree.cases)
next
  case (node a h d B)
  from node.prems obtain e C where "trees e h (cellValues (cellAt h a)) C" "A' = insert a C"
    by (auto elim: tree_RefE)
  then show ?case using node.IH by blast
next
  case (nil d h)
  then show ?case by (auto elim: trees_NilE)
next
  case (cons d h v A vs B)
  from cons.prems obtain A1 B1 where "tree d' h v A1" "trees d' h vs B1" "B' = A1 \<union> B1"
    by (auto elim: trees_ConsE)
  then show ?case using cons.IH by blast
qed

lemma trees_member:
  "trees d h vs B \<Longrightarrow> v \<in> set vs \<Longrightarrow> \<exists>A. tree d h v A \<and> A \<subseteq> B"
proof (induction vs arbitrary: B)
  case (Cons w vs)
  from Cons.prems(1) obtain A1 B1 where t: "tree d h w A1" "trees d h vs B1" "B = A1 \<union> B1"
    by (auto elim: trees_ConsE)
  show ?case
  proof (cases "v = w")
    case True
    then show ?thesis using t by blast
  next
    case False
    then have "v \<in> set vs" using Cons.prems(2) by simp
    then obtain A where "tree d h v A" "A \<subseteq> B1" using Cons.IH [OF t(2)] by blast
    then show ?thesis using t(3) by blast
  qed
qed simp

lemma trees_covered:
  "trees d h vs B \<Longrightarrow> b \<in> B \<Longrightarrow> \<exists>v \<in> set vs. \<exists>A. tree d h v A \<and> b \<in> A"
proof (induction vs arbitrary: B)
  case (Cons w vs)
  from Cons.prems(1) obtain A1 B1 where t: "tree d h w A1" "trees d h vs B1" "B = A1 \<union> B1"
    by (auto elim: trees_ConsE)
  show ?case
  proof (cases "b \<in> A1")
    case True
    then show ?thesis using t(1) by auto
  next
    case False
    then have "b \<in> B1" using Cons.prems(2) t(3) by simp
    then show ?thesis using Cons.IH [OF t(2)] by auto
  qed
qed (auto elim: trees_NilE)

lemma trees_apart:
  "trees d h vs B \<Longrightarrow> v \<in> set vs \<Longrightarrow> w \<in> set vs \<Longrightarrow> v \<noteq> w \<Longrightarrow>
     tree d h v A \<Longrightarrow> tree d h w A' \<Longrightarrow> A \<inter> A' = {}"
proof (induction vs arbitrary: B)
  case (Cons u vs)
  from Cons.prems(1) obtain A1 B1 where t: "tree d h u A1" "trees d h vs B1" "A1 \<inter> B1 = {}"
    by (auto elim: trees_ConsE)
  have in_B1: "X \<subseteq> B1" if "x \<in> set vs" "tree d h x X" for x X
    using trees_member [OF t(2) that(1)] tree_unique(1) [OF that(2)] by blast
  consider "v = u" "w \<in> set vs" | "w = u" "v \<in> set vs" | "v \<in> set vs" "w \<in> set vs"
    using Cons.prems(2,3,4) by auto
  then show ?case
  proof cases
    case 1
    then have "A = A1" "A' \<subseteq> B1"
      using tree_unique(1) [OF t(1), of d A] Cons.prems(5,6) in_B1 by auto
    then show ?thesis using t(3) by blast
  next
    case 2
    then have "A' = A1" "A \<subseteq> B1"
      using tree_unique(1) [OF t(1), of d A'] Cons.prems(5,6) in_B1 by auto
    then show ?thesis using t(3) by blast
  next
    case 3
    then show ?thesis using Cons.IH [OF t(2)] Cons.prems(4,5,6) by blast
  qed
qed simp

lemma trees_refs_once: "trees d h vs B \<Longrightarrow> distinct (filter isRef vs)"
proof (induction vs arbitrary: B)
  case (Cons v vs)
  from Cons.prems obtain A1 B1 where t: "tree d h v A1" "trees d h vs B1" "A1 \<inter> B1 = {}"
    by (auto elim: trees_ConsE)
  have "v \<notin> set vs" if r: "isRef v"
  proof
    assume m: "v \<in> set vs"
    obtain a where a: "v = Ref a" using r by (cases v) simp_all
    obtain A where "tree d h v A" "A \<subseteq> B1" using trees_member [OF t(2) m] by blast
    then have "a \<in> B1" "a \<in> A1" using a tree_root t(1) by auto
    then show False using t(3) by blast
  qed
  then show ?case using Cons.IH [OF t(2)] by simp
qed simp

lemma trees_build:
  assumes "\<forall>v \<in> set ws. \<exists>A. tree d h v A \<and> A \<subseteq> C"
    and "distinct (filter isRef ws)"
    and "\<forall>v \<in> set ws. \<forall>w \<in> set ws. v \<noteq> w \<longrightarrow>
           (\<forall>A A'. tree d h v A \<longrightarrow> tree d h w A' \<longrightarrow> A \<inter> A' = {})"
  shows "\<exists>B. trees d h ws B \<and> B \<subseteq> C"
  using assms
proof (induction ws)
  case Nil
  then show ?case by (auto intro: tree_trees.nil)
next
  case (Cons v ws)
  have "distinct (filter isRef ws)" using Cons.prems(2) by (cases "isRef v") simp_all
  moreover have "\<forall>v \<in> set ws. \<exists>A. tree d h v A \<and> A \<subseteq> C" using Cons.prems(1) by simp
  moreover have "\<forall>v \<in> set ws. \<forall>w \<in> set ws. v \<noteq> w \<longrightarrow>
           (\<forall>A A'. tree d h v A \<longrightarrow> tree d h w A' \<longrightarrow> A \<inter> A' = {})"
    using Cons.prems(3) by simp
  ultimately obtain B where B: "trees d h ws B" "B \<subseteq> C" using Cons.IH by blast
  obtain A where A: "tree d h v A" "A \<subseteq> C" using Cons.prems(1) by auto
  have "A \<inter> B = {}"
  proof (rule ccontr)
    assume "A \<inter> B \<noteq> {}"
    then obtain b where b: "b \<in> A" "b \<in> B" by blast
    obtain w A' where w: "w \<in> set ws" "tree d h w A'" "b \<in> A'"
      using trees_covered [OF B(1) b(2)] by blast
    show False
    proof (cases "w = v")
      case True
      then have "\<not> isRef v" using Cons.prems(2) w(1) by (cases "isRef v") auto
      then show False using A(1) b(1) by (simp add: tree_leaf_iff)
    next
      case False
      then have "A \<inter> A' = {}" using Cons.prems(3) w(1,2) A(1) by auto
      then show False using b(1) w(3) by blast
    qed
  qed
  then have "trees d h (v # ws) (A \<union> B)" using A(1) B(1) by (intro tree_trees.cons)
  then show ?case using A(2) B(2) by blast
qed

lemma trees_filter:
  assumes "trees d h vs B"
  shows "\<exists>B'. trees d h (filter p vs) B' \<and> B' \<subseteq> B"
proof (rule trees_build)
  show "\<forall>v \<in> set (filter p vs). \<exists>A. tree d h v A \<and> A \<subseteq> B"
    using trees_member [OF assms] by auto
  have "filter isRef (filter p vs) = filter p (filter isRef vs)" by (simp add: conj_commute)
  then show "distinct (filter isRef (filter p vs))"
    using trees_refs_once [OF assms] distinct_filter [of "filter isRef vs" p] by (simp only:)
  show "\<forall>v \<in> set (filter p vs). \<forall>w \<in> set (filter p vs). v \<noteq> w \<longrightarrow>
      (\<forall>A A'. tree d h v A \<longrightarrow> tree d h w A' \<longrightarrow> A \<inter> A' = {})"
    by (intro ballI impI allI) (rule trees_apart [OF assms], simp_all)
qed

lemma trees_append:
  "trees d h xs A \<Longrightarrow> trees d h ys B \<Longrightarrow> A \<inter> B = {} \<Longrightarrow> trees d h (xs @ ys) (A \<union> B)"
proof (induction xs arbitrary: A)
  case Nil
  then show ?case by (auto elim: trees_NilE)
next
  case (Cons x xs)
  from Cons.prems(1) obtain A1 A2 where t: "tree d h x A1" "trees d h xs A2" "A1 \<inter> A2 = {}"
      "A = A1 \<union> A2" by (auto elim: trees_ConsE)
  have "trees d h (xs @ ys) (A2 \<union> B)" using Cons.IH [OF t(2) Cons.prems(2)] Cons.prems(3) t(4) by blast
  moreover have "A1 \<inter> (A2 \<union> B) = {}" using t(3,4) Cons.prems(3) by blast
  ultimately have "trees d h (x # xs @ ys) (A1 \<union> (A2 \<union> B))" using t(1) by (intro tree_trees.cons)
  then show ?case using t(4) by (simp add: Un_assoc)
qed

lemma typeErrors_Inr [simp]: "typeErrors (Inr x)" by (simp add: typeErrors_def)

lemma typeErrors_TypeError [simp]: "typeErrors (Inl TypeError)" by (simp add: typeErrors_def)

lemma typeErrors_bnd: "typeErrors m \<Longrightarrow> (\<And>x. typeErrors (f x)) \<Longrightarrow> typeErrors (bnd m f)"
  by (cases m) (auto simp: typeErrors_def)

lemma typeErrors_getp [simp]: "typeErrors (getp h v k)"
  by (cases v) (simp_all add: getp_def)

lemma typeErrors_extractLinkType [simp]: "typeErrors (extractLinkType v)"
  by (cases v) (simp_all add: extractLinkType_def)

lemma typeErrors_getResolvedLink: "typeErrors (getResolvedLink S h m link)"
  unfolding getResolvedLink_def
  by (intro typeErrors_bnd typeErrors_getp) (auto intro!: typeErrors_bnd split: option.splits)

lemma normalizeLink_no_RangeError: "normalizeLink S m r h x \<noteq> Inl RangeError"
proof -
  have "typeErrors (normalizeLink S m r h x)"
    unfolding normalizeLink_def by (intro typeErrors_bnd typeErrors_getResolvedLink) simp
  then show ?thesis by (auto simp: typeErrors_def)
qed

lemma frames_trans':
  assumes "frames h A h1" "frames h1 B h2" "A \<subseteq> C" "\<forall>b \<in> B. b < length h \<longrightarrow> b \<in> C"
  shows "frames h C h2"
proof -
  have "h2 ! x = h ! x" if "x < length h" "x \<notin> C" for x
  proof -
    have "h1 ! x = h ! x" using assms(1,3) that by (auto simp: frames_def)
    moreover have "x < length h1" "x \<notin> B" using assms(1,4) that by (auto simp: frames_def)
    then have "h2 ! x = h1 ! x" using assms(2) by (simp add: frames_def)
    ultimately show ?thesis by simp
  qed
  then show ?thesis using assms(1,2) by (simp add: frames_def)
qed

lemma frames_objectAssign: "frames h {t} (objectAssign h (Ref t) s)"
proof (cases s)
  case (Ref a)
  have "frames h {t} (fold (\<lambda>k h'. case readKey (cellAt h' a) k of
      Some v \<Rightarrow> store h' t (asName k) v | None \<Rightarrow> h') ks h)" for ks
  proof (induction ks arbitrary: h)
    case (Cons k ks)
    let ?h1 = "case readKey (cellAt h a) k of Some v \<Rightarrow> store h t (asName k) v | None \<Rightarrow> h"
    have "frames h {t} ?h1" by (cases "readKey (cellAt h a) k") (simp_all add: frames_store)
    moreover have "frames ?h1 {t} (fold (\<lambda>k h'. case readKey (cellAt h' a) k of
      Some v \<Rightarrow> store h' t (asName k) v | None \<Rightarrow> h') ks ?h1)" by (rule Cons)
    ultimately have "frames h {t} (fold (\<lambda>k h'. case readKey (cellAt h' a) k of
      Some v \<Rightarrow> store h' t (asName k) v | None \<Rightarrow> h') ks ?h1)"
      by (rule frames_trans) simp_all
    then show ?case by simp
  qed simp
  then show ?thesis using Ref by (simp add: objectAssign_def)
qed (simp_all add: objectAssign_def)

lemma objectAssign_other: "\<not> isRef t \<Longrightarrow> objectAssign h t s = h"
  by (cases t) (simp_all add: objectAssign_def)

lemma makeEntryObject_Some:
  "makeEntryObject h item (Some eps) = (Ref (length h), h @ [entryCell h item eps (CObj [])])"
  by (simp add: makeEntryObject_def entryCell_def)

lemma set_update_cases: "kv \<in> set (AList.update k v al) \<Longrightarrow> kv = (k, v) \<or> kv \<in> set al"
  by (induction al) (auto split: if_splits)

lemma entryCell_fields:
  assumes "distinct (map fst acc)" "\<forall>kv \<in> set acc. readKey (cellAt h a) (Name (fst kv)) = Some (snd kv)"
  shows "\<exists>kvs. entryCell h (Ref a) eps (CObj acc) = CObj kvs \<and> distinct (map fst kvs) \<and>
           (\<forall>kv \<in> set kvs. readKey (cellAt h a) (Name (fst kv)) = Some (snd kv))"
  using assms
proof (induction eps arbitrary: acc)
  case Nil
  then show ?case by (simp add: entryCell_def)
next
  case (Cons e eps)
  show ?case
  proof (cases "readKey (cellAt h a) (Name e)")
    case None
    then have "entryCell h (Ref a) (e # eps) (CObj acc) = entryCell h (Ref a) eps (CObj acc)"
      by (simp add: entryCell_def)
    then show ?thesis using Cons by simp
  next
    case (Some v)
    then have s: "entryCell h (Ref a) (e # eps) (CObj acc) =
        entryCell h (Ref a) eps (CObj (AList.update e v acc))"
      by (simp add: entryCell_def)
    have "distinct (map fst (AList.update e v acc))" using Cons.prems(1) by (rule distinct_update)
    moreover have "\<forall>kv \<in> set (AList.update e v acc).
        readKey (cellAt h a) (Name (fst kv)) = Some (snd kv)"
    proof
      fix kv assume "kv \<in> set (AList.update e v acc)"
      then have "kv = (e, v) \<or> kv \<in> set acc" by (rule set_update_cases)
      then show "readKey (cellAt h a) (Name (fst kv)) = Some (snd kv)"
        using Cons.prems(2) Some by auto
    qed
    ultimately show ?thesis unfolding s by (rule Cons.IH)
  qed
qed

lemma refs_once_keys:
  assumes "distinct (filter isRef (map snd kvs))" "(k, v) \<in> set kvs" "(k', v) \<in> set kvs" "isRef v"
  shows "k' = k"
proof -
  have "filter isRef (map snd kvs) = map snd (filter (\<lambda>kv. isRef (snd kv)) kvs)"
    by (simp add: filter_map comp_def)
  then have "inj_on snd (set (filter (\<lambda>kv. isRef (snd kv)) kvs))"
    using assms(1) by (simp add: distinct_map)
  moreover have "(k, v) \<in> set (filter (\<lambda>kv. isRef (snd kv)) kvs)"
    "(k', v) \<in> set (filter (\<lambda>kv. isRef (snd kv)) kvs)" using assms(2,3,4) by auto
  ultimately have "(k', v) = (k, v)" by (metis inj_onD snd_conv)
  then show ?thesis by simp
qed

lemma entry_values_once:
  assumes "distinct (map fst kvs)"
    and "\<forall>kv \<in> set kvs. readKey c (Name (fst kv)) = Some (snd kv)"
    and "distinct (filter isRef (cellValues c))"
  shows "distinct (filter isRef (map snd kvs))"
proof -
  have inj: "inj_on snd (set (filter (\<lambda>kv. isRef (snd kv)) kvs))"
  proof (rule inj_onI)
    fix p q assume p: "p \<in> set (filter (\<lambda>kv. isRef (snd kv)) kvs)"
      and q: "q \<in> set (filter (\<lambda>kv. isRef (snd kv)) kvs)" and e: "snd p = snd q"
    from p q assms(2) have r: "readKey c (Name (fst p)) = Some (snd p)"
      "readKey c (Name (fst q)) = Some (snd p)" "isRef (snd p)" using e by auto
    then obtain ikvs where c: "c = CObj ikvs" by (cases c) auto
    then have "(fst p, snd p) \<in> set ikvs" "(fst q, snd p) \<in> set ikvs"
      using r by (auto dest: map_of_SomeD)
    then have "fst q = fst p" using assms(3) c r(3) by (intro refs_once_keys [of ikvs]) auto
    then show "p = q" using e by (simp add: prod_eq_iff)
  qed
  have "distinct kvs" using assms(1) by (simp add: distinct_map)
  then have "distinct (filter (\<lambda>kv. isRef (snd kv)) kvs)" by simp
  then have "distinct (map snd (filter (\<lambda>kv. isRef (snd kv)) kvs))"
    using inj by (simp only: distinct_map)
  moreover have "filter isRef (map snd kvs) = map snd (filter (\<lambda>kv. isRef (snd kv)) kvs)"
    by (simp add: filter_map comp_def)
  ultimately show ?thesis by simp
qed

lemma entry_object_tree:
  assumes t: "tree d h (Ref a) A"
  shows "\<exists>B. tree d (h @ [entryCell h (Ref a) eps (CObj [])]) (Ref (length h)) (insert (length h) B) \<and>
           B \<subseteq> A - {a}"
proof -
  from t obtain e C where n: "d = Suc e" "a < length h" "distinct (ownKeys (cellAt h a))"
      "trees e h (cellValues (cellAt h a)) C" "a \<notin> C" "A = insert a C"
    by (auto elim: tree_RefE)
  obtain kvs where k: "entryCell h (Ref a) eps (CObj []) = CObj kvs" "distinct (map fst kvs)"
      "\<forall>kv \<in> set kvs. readKey (cellAt h a) (Name (fst kv)) = Some (snd kv)"
    using entryCell_fields [of "[]" h a eps] by auto
  let ?h = "h @ [CObj kvs]"
  have "\<exists>B. trees e h (map snd kvs) B \<and> B \<subseteq> C"
  proof (rule trees_build)
    show "\<forall>v \<in> set (map snd kvs). \<exists>A. tree e h v A \<and> A \<subseteq> C"
    proof
      fix v assume "v \<in> set (map snd kvs)"
      then have "v \<in> set (cellValues (cellAt h a))" using k(3) readKey_in_values by fastforce
      then show "\<exists>A. tree e h v A \<and> A \<subseteq> C" by (rule trees_member [OF n(4)])
    qed
    show "distinct (filter isRef (map snd kvs))"
      using k(2,3) trees_refs_once [OF n(4)] by (rule entry_values_once)
    show "\<forall>v \<in> set (map snd kvs). \<forall>w \<in> set (map snd kvs). v \<noteq> w \<longrightarrow>
        (\<forall>A A'. tree e h v A \<longrightarrow> tree e h w A' \<longrightarrow> A \<inter> A' = {})"
    proof (intro ballI impI allI)
      fix v w A A' assume "v \<in> set (map snd kvs)" "w \<in> set (map snd kvs)" "v \<noteq> w"
        "tree e h v A" "tree e h w A'"
      moreover from this have "v \<in> set (cellValues (cellAt h a))" "w \<in> set (cellValues (cellAt h a))"
        using k(3) readKey_in_values by fastforce+
      ultimately show "A \<inter> A' = {}" using trees_apart [OF n(4)] by blast
    qed
  qed
  then obtain B where B: "trees e h (map snd kvs) B" "B \<subseteq> C" by blast
  have "trees e ?h (map snd kvs) B" using frames_append [of h "{}"] B(1) by (rule tree_frames(2)) simp
  moreover have "length h \<notin> B" using tree_bound(2) [OF B(1)] by auto
  moreover have "distinct (map (\<lambda>kv. Name (fst kv)) kvs)" using k(2) by (simp add: distinct_map inj_on_def)
  ultimately have "tree (Suc e) ?h (Ref (length h)) (insert (length h) B)"
    by (intro tree_trees.node) (simp_all add: cellAt_def)
  then show ?thesis using k(1) n(1,5,6) B(2) by auto
qed

lemma resolveItem_frame:
  assumes t: "tree d h (Ref a) A"
  shows "safely (d < fuel) (resolveItem S fuel opts m h (Ref a)) (\<lambda>h'. frames h A h')"
proof -
  have a: "a \<in> A" using t by (rule tree_root)
  have assign: "frames h A (objectAssign (snd res) (Ref a) (fst res))"
    if "frames h1 C (snd res)" "frames h {} h1" "\<forall>b \<in> C. b < length h \<longrightarrow> b \<in> A"
    for res :: "jv \<times> heap" and h1 C
  proof -
    have "frames h A (snd res)" using that(2,1) by (rule frames_trans') (use that(3) in auto)
    then show ?thesis using frames_objectAssign by (rule frames_trans) (use a in auto)
  qed
  show ?thesis
  proof (cases "itemEntryPoints opts")
    case None
    have "safely (d < fuel) (walkMutate fuel isAnyLink (normalizeLink S m (removeUnresolved opts))
        (removeUnresolved opts) h (Ref a)) (\<lambda>res. frames h A (snd res))"
      using normalizeLink_no_RangeError t by (rule walkMutate_frame)
    then have "safely (d < fuel) (bnd (walkMutate fuel isAnyLink (normalizeLink S m (removeUnresolved opts))
        (removeUnresolved opts) h (Ref a)) (\<lambda>r. Inr (objectAssign (snd r) (Ref a) (fst r))))
        (\<lambda>h'. frames h A h')"
      by (rule safely_bnd) (simp add: assign [where ?h1.0 = h and C = A])
    then show ?thesis using None by (simp add: resolveItem_def makeEntryObject_def)
  next
    case (Some eps)
    let ?h1 = "h @ [entryCell h (Ref a) eps (CObj [])]"
    obtain B where B: "tree d ?h1 (Ref (length h)) (insert (length h) B)" "B \<subseteq> A - {a}"
      using entry_object_tree [OF t] by blast
    have "safely (d < fuel) (walkMutate fuel isAnyLink (normalizeLink S m (removeUnresolved opts))
        (removeUnresolved opts) ?h1 (Ref (length h))) (\<lambda>res. frames ?h1 (insert (length h) B) (snd res))"
      using normalizeLink_no_RangeError B(1) by (rule walkMutate_frame)
    then have "safely (d < fuel) (bnd (walkMutate fuel isAnyLink (normalizeLink S m (removeUnresolved opts))
        (removeUnresolved opts) ?h1 (Ref (length h))) (\<lambda>r. Inr (objectAssign (snd r) (Ref a) (fst r))))
        (\<lambda>h'. frames h A h')"
    proof (rule safely_bnd)
      fix res :: "jv \<times> heap" assume "frames ?h1 (insert (length h) B) (snd res)"
      then have "frames h A (objectAssign (snd res) (Ref a) (fst res))"
        using frames_append [of h "{}"] by (rule assign) (use B(2) in auto)
      then show "safely (d < fuel) (Inr (objectAssign (snd res) (Ref a) (fst res))) (\<lambda>h'. frames h A h')"
        by simp
    qed
    then show ?thesis using Some by (simp add: resolveItem_def makeEntryObject_Some)
  qed
qed

lemma resolveAll_frame:
  "trees d h es B \<Longrightarrow> \<forall>e \<in> set es. isRef e \<Longrightarrow>
     safely (d < fuel) (resolveAll S fuel opts m h es) (\<lambda>h'. frames h B h')"
proof (induction es arbitrary: h B)
  case Nil
  then show ?case by simp
next
  case (Cons e es)
  from Cons.prems(1) obtain A1 B1 where t: "tree d h e A1" "trees d h es B1" "A1 \<inter> B1 = {}"
      "B = A1 \<union> B1" by (auto elim: trees_ConsE)
  obtain a where a: "e = Ref a" using Cons.prems(2) by (cases e) simp_all
  have "safely (d < fuel) (resolveItem S fuel opts m h e) (\<lambda>h'. frames h A1 h')"
    using t(1) unfolding a by (rule resolveItem_frame)
  then have "safely (d < fuel) (bnd (resolveItem S fuel opts m h e)
      (\<lambda>h'. resolveAll S fuel opts m h' es)) (\<lambda>h'. frames h B h')"
  proof (rule safely_bnd)
    fix h1 assume f: "frames h A1 h1"
    have "trees d h1 es B1" using f t(2) by (rule tree_frames(2)) (use t(3) in auto)
    then have "safely (d < fuel) (resolveAll S fuel opts m h1 es) (\<lambda>h'. frames h1 B1 h')"
      using Cons.prems(2) by (intro Cons.IH) auto
    then show "safely (d < fuel) (resolveAll S fuel opts m h1 es) (\<lambda>h'. frames h B h')"
    proof (rule safely_mono)
      fix h' assume "frames h1 B1 h'"
      with f show "frames h B h'" by (rule frames_trans) (use t(4) in auto)
    qed
  qed
  then show ?case by simp
qed

lemma resolveResponse_copied:
  "items resp = Some its \<Longrightarrow> copied resp = (ivs, incs, h) \<Longrightarrow>
     resolveResponse S fuel resp opts = resolveStore S fuel opts h ivs incs"
  by (auto simp: resolveResponse_def copied_def split: prod.splits)

lemma copyIncludes_shape:
  "\<forall>inc \<in> set incs. wellFormedList (snd inc) \<Longrightarrow>
     \<exists>B. within B h (snd (copyIncludes incs h)) \<and>
         trees (depthIncludes incs) (snd (copyIncludes incs h)) (concat (fst (copyIncludes incs h))) B"
proof (induction incs arbitrary: h)
  case Nil
  then show ?case by (auto simp: within_def intro: tree_trees.nil)
next
  case (Cons inc incs)
  obtain vs h1 where c1: "copyList (snd inc) h = (vs, h1)" by (cases "copyList (snd inc) h")
  obtain vss h2 where c2: "copyIncludes incs h1 = (vss, h2)" by (cases "copyIncludes incs h1")
  have "wellFormedList (snd inc)" using Cons.prems by simp
  from copy_shape(2) [OF this, of h] c1 obtain A where A: "within A h h1"
      "trees (depthList (snd inc)) h1 vs A" by auto
  from Cons.IH [of h1] Cons.prems c2 obtain B where B: "within B h1 h2"
      "trees (depthIncludes incs) h2 (concat vss) B" by auto
  have f: "frames h1 {} h2" using B(1) by (rule within_frames)
  have "trees (depthList (snd inc)) h2 vs A" using f A(2) by (rule tree_frames(2)) simp
  then have "trees (max (depthList (snd inc)) (depthIncludes incs)) h2 vs A"
    by (rule tree_mono(2)) simp
  moreover have "trees (max (depthList (snd inc)) (depthIncludes incs)) h2 (concat vss) B"
    using B(2) by (rule tree_mono(2)) simp
  ultimately have "trees (max (depthList (snd inc)) (depthIncludes incs)) h2 (vs @ concat vss) (A \<union> B)"
    using within_disjoint [OF A(1) B(1)] by (rule trees_append)
  then show ?case using c1 c2 within_append [OF A(1) B(1)] by auto
qed

lemma copied_shape:
  assumes "wellFormedResponse resp" "items resp = Some its" "copied resp = (ivs, incs, h)"
  shows "\<exists>B. trees (responseDepth resp) h (ivs @ concat incs) B \<and> representsList h ivs its"
proof -
  obtain h1 where c1: "copyList its [] = (ivs, h1)"
    using assms(2,3) by (auto simp: copied_def split: prod.splits)
  then have c2: "copyIncludes (includes' resp) h1 = (incs, h)"
    using assms(2,3) by (auto simp: copied_def split: prod.splits)
  have w: "wellFormedList its" "\<forall>inc \<in> set (includes' resp). wellFormedList (snd inc)"
    using assms(1,2) by (auto simp: wellFormedResponse_def)
  from copy_shape(2) [OF w(1), of "[]"] c1 obtain A where A: "within A [] h1"
      "trees (depthList its) h1 ivs A" "representsList h1 ivs its" by auto
  from copyIncludes_shape [OF w(2), of h1] c2 obtain B where B: "within B h1 h"
      "trees (depthIncludes (includes' resp)) h (concat incs) B" by auto
  have f: "frames h1 {} h" using B(1) by (rule within_frames)
  have d: "responseDepth resp = max (depthList its) (depthIncludes (includes' resp))"
    using assms(2) by (simp add: responseDepth_def)
  have "trees (depthList its) h ivs A" using f A(2) by (rule tree_frames(2)) simp
  then have "trees (responseDepth resp) h ivs A" unfolding d by (rule tree_mono(2)) simp
  moreover have "trees (responseDepth resp) h (concat incs) B"
    using B(2) unfolding d by (rule tree_mono(2)) simp
  ultimately have "trees (responseDepth resp) h (ivs @ concat incs) (A \<union> B)"
    using within_disjoint [OF A(1) B(1)] by (rule trees_append)
  moreover have "representsList h ivs its" using A(2,3) f by (rule representsList_frames) simp
  ultimately show ?thesis by blast
qed

lemma truthy_sys_isRef: "truthy (optp h v k) \<Longrightarrow> isRef v"
  by (cases v) (simp_all add: optp_def readAt_def)

lemma typeErrors_keepEntities: "typeErrors (keepEntities h vs)"
  by (induction vs) (auto intro!: typeErrors_bnd)

lemma resolveStore_frame:
  assumes t: "trees d h (ivs @ concat incs) B"
  shows "safely (d < fuel) (resolveStore S fuel opts h ivs incs)
     (\<lambda>res. fst res = ivs \<and>
        (\<exists>es C. keepEntities h (ivs @ concat incs) = Inr es \<and> trees d h es C \<and> C \<subseteq> B \<and>
           frames h C (snd res)))"
proof (cases "keepEntities h (ivs @ concat incs)")
  case (Inl e)
  then have "e = TypeError" using typeErrors_keepEntities [of h "ivs @ concat incs"]
    by (simp add: typeErrors_def)
  then show ?thesis using Inl by (simp add: resolveStore_def)
next
  case (Inr es)
  then have es: "es = filter (\<lambda>e. truthy (optp h e ''sys'')) (ivs @ concat incs)"
    by (rule keepEntities_filter)
  then obtain C where C: "trees d h es C" "C \<subseteq> B" using trees_filter [OF t] by blast
  have ts: "\<forall>e \<in> set es. truthy (optp h e ''sys'')" unfolding es by (simp only: set_filter) blast
  then have r: "\<forall>e \<in> set es. isRef e" using truthy_sys_isRef by blast
  from ts obtain pairs where p: "entityPairs S h es = Inr pairs" using entityPairs_total by blast
  have "safely (d < fuel) (resolveAll S fuel opts (newMap pairs) h es) (\<lambda>h'. frames h C h')"
    using C(1) r by (rule resolveAll_frame)
  then have "safely (d < fuel) (bnd (resolveAll S fuel opts (newMap pairs) h es) (\<lambda>h'. Inr (ivs, h')))
     (\<lambda>res. fst res = ivs \<and>
        (\<exists>es C. keepEntities h (ivs @ concat incs) = Inr es \<and> trees d h es C \<and> C \<subseteq> B \<and>
           frames h C (snd res)))"
    by (rule safely_bnd) (use Inr C in auto)
  then show ?thesis by (simp add: resolveStore_def Inr p)
qed

lemma represents_truthy: "represents h v t \<Longrightarrow> truthy v = truthyJ t"
  by (cases t; cases v) simp_all

lemma representsFields_map_of:
  "representsFields h kvs fs \<Longrightarrow>
     (case map_of fs k of
        None \<Rightarrow> map_of kvs k = None
      | Some t \<Rightarrow> (\<exists>v. map_of kvs k = Some v \<and> represents h v t))"
proof (induction fs arbitrary: kvs)
  case Nil
  then show ?case by simp
next
  case (Cons f fs)
  then obtain kv kvs' where k: "kvs = kv # kvs'" "fst kv = fst f" "represents h (snd kv) (snd f)"
      "representsFields h kvs' fs" by (cases kvs) auto
  show ?case
  proof (cases "k = fst f")
    case True
    then show ?thesis using k by (cases f; cases kv) auto
  next
    case False
    then show ?thesis using k Cons.IH [OF k(4)]
      by (cases f; cases kv) (auto split: option.splits)
  qed
qed

lemma represents_identity: "represents h v t \<Longrightarrow> truthy (optp h v ''sys'') = hasIdentity t"
proof (cases t)
  case (JObj fs)
  assume r: "represents h v t"
  then obtain a kvs where a: "v = Ref a" "a < length h" "h ! a = CObj kvs" "representsFields h kvs fs"
    using JObj by (cases v) (auto split: cell.splits)
  show ?thesis
  proof (cases "map_of fs ''sys''")
    case None
    then have "map_of kvs ''sys'' = None" using representsFields_map_of [OF a(4), of "''sys''"] by simp
    then show ?thesis using None JObj a by (simp add: optp_def readAt_def cellAt_def hasIdentity_def)
  next
    case (Some s)
    then obtain x where "map_of kvs ''sys'' = Some x" "represents h x s"
      using representsFields_map_of [OF a(4), of "''sys''"] by auto
    then show ?thesis using Some JObj a represents_truthy [of h x s]
      by (simp add: optp_def readAt_def cellAt_def hasIdentity_def)
  qed
next
  case (JArr xs)
  assume "represents h v t"
  then show ?thesis using JArr
    by (cases v) (auto simp: optp_def readAt_def cellAt_def hasIdentity_def split: cell.splits)
qed (cases v; simp add: optp_def readAt_def hasIdentity_def)+

lemma representsList_nth:
  "representsList h vs xs \<Longrightarrow> length vs = length xs \<and> (\<forall>i < length xs. represents h (vs ! i) (xs ! i))"
proof (induction xs arbitrary: vs)
  case (Cons x xs)
  then obtain v vs' where v: "vs = v # vs'" "represents h v x" "representsList h vs' xs"
    by (cases vs) auto
  then show ?case using Cons.IH [OF v(3)] by (auto simp: nth_Cons split: nat.splits)
qed simp

lemma resolveResponse_frame:
  assumes "wellFormedResponse resp" "items resp = Some its" "copied resp = (ivs, incs, h)"
  shows "\<exists>B. trees (responseDepth resp) h (ivs @ concat incs) B \<and> representsList h ivs its \<and>
     safely (responseDepth resp < fuel) (resolveResponse S fuel resp opts)
       (\<lambda>res. fst res = ivs \<and>
          (\<exists>es C. keepEntities h (ivs @ concat incs) = Inr es \<and>
             trees (responseDepth resp) h es C \<and> C \<subseteq> B \<and> frames h C (snd res)))"
proof -
  obtain B where B: "trees (responseDepth resp) h (ivs @ concat incs) B" "representsList h ivs its"
    using copied_shape [OF assms] by blast
  show ?thesis
    using B resolveStore_frame [OF B(1), of fuel S opts] resolveResponse_copied [OF assms(2,3)]
    by (intro exI [of _ B]) simp
qed

lemma resolveResponse_room:
  assumes "wellFormedResponse resp" "responseDepth resp < fuel"
  shows "resolveResponse S fuel resp opts \<noteq> Inl RangeError"
proof (cases "items resp")
  case None
  then show ?thesis by (simp add: resolveResponse_def)
next
  case (Some its)
  obtain ivs incs h where c: "copied resp = (ivs, incs, h)" by (cases "copied resp") auto
  obtain Q where "safely (responseDepth resp < fuel) (resolveResponse S fuel resp opts) Q"
    using resolveResponse_frame [OF assms(1) Some c, of fuel S opts] by blast
  then show ?thesis using assms(2) by (cases "resolveResponse S fuel resp opts") auto
qed



lemma resolvedAt_frames:
  "resolvedAt h v p E A \<Longrightarrow> frames h C h' \<Longrightarrow> A \<inter> C = {} \<Longrightarrow> resolvedAt h' v p E A"
proof (induction p arbitrary: v A)
  case (Cons k p)
  from Cons.prems(1) obtain a kvs x A' where r: "v = Ref a" "a \<in> A" "a < length h" "h ! a = CObj kvs"
      "map_of kvs k = Some x" "A' \<subseteq> A - {a}" "resolvedAt h x p E A'" by auto
  have "a < length h'" "h' ! a = h ! a" using Cons.prems(2,3) r(2,3) by (auto simp: frames_def)
  moreover have "resolvedAt h' x p E A'" using r(7) Cons.prems(2) by (rule Cons.IH) (use Cons.prems(3) r(6) in auto)
  ultimately show ?case using r by auto
qed simp

lemma resolvedAt_mono: "resolvedAt h v p E A \<Longrightarrow> A \<subseteq> B \<Longrightarrow> resolvedAt h v p E B"
proof (cases p)
  case (Cons k q)
  assume a: "resolvedAt h v p E A" "A \<subseteq> B"
  then obtain a kvs x A' where r: "v = Ref a" "a \<in> A" "a < length h" "h ! a = CObj kvs"
      "map_of kvs k = Some x" "A' \<subseteq> A - {a}" "resolvedAt h x q E A'" using Cons by auto
  have "A' \<subseteq> B - {a}" using r(6) a(2) by blast
  then show ?thesis using Cons r a(2) by auto
qed simp

lemma resolvedAt_pathAt: "resolvedAt h v p E A \<Longrightarrow> pathAt h v (map Name p) = E"
proof (induction p arbitrary: v A)
  case (Cons k p)
  from Cons.prems obtain a kvs x A' where r: "v = Ref a" "a < length h" "h ! a = CObj kvs"
      "map_of kvs k = Some x" "resolvedAt h x p E A'" by auto
  have "readAt h v (Name k) = x" using r by (simp add: readAt_def cellAt_def)
  then show ?case using Cons.IH [OF r(5)] by (simp add: pathAt_def)
qed (simp add: pathAt_def)

lemma optp_frames:
  assumes "tree d h v A" "frames h C h'" "A \<inter> C = {}"
  shows "optp h' v k = optp h v k"
proof (cases v)
  case (Ref a)
  then have "a \<in> A" using assms(1) tree_root by simp
  moreover have "a < length h" using assms(1) Ref by (auto elim: tree_RefE)
  ultimately have "cellAt h' a = cellAt h a" using assms(2,3) by (intro cellAt_frames [of h C]) auto
  then show ?thesis using Ref by (simp add: optp_def readAt_def)
qed (simp_all add: optp_def readAt_def)

lemma tree_child:
  assumes "tree d h (Ref a) A" "readKey (cellAt h a) k = Some x"
  shows "\<exists>e A'. d = Suc e \<and> tree e h x A' \<and> A' \<subseteq> A - {a}"
proof -
  from assms(1) obtain e B where n: "d = Suc e" "trees e h (cellValues (cellAt h a)) B" "a \<notin> B"
      "A = insert a B" by (auto elim: tree_RefE)
  have "x \<in> set (cellValues (cellAt h a))" using assms(2) by (rule readKey_in_values)
  then obtain A' where "tree e h x A'" "A' \<subseteq> B" using trees_member [OF n(2)] by blast
  then show ?thesis using n by auto
qed

lemma tree_optp:
  assumes "tree d h v A"
  shows "\<exists>e A'. tree e h (optp h v k) A' \<and> A' \<subseteq> A"
proof (cases "\<exists>a x. v = Ref a \<and> readKey (cellAt h a) (Name k) = Some x")
  case True
  then obtain a x where a: "v = Ref a" "readKey (cellAt h a) (Name k) = Some x" by blast
  then have "optp h v k = x" by (simp add: optp_def readAt_def)
  then show ?thesis using tree_child [of d h a A "Name k" x] assms a by auto
next
  case False
  then have "\<not> isRef (optp h v k)" by (cases v) (auto simp: optp_def readAt_def split: option.splits)
  then have "tree 0 h (optp h v k) {}" by (simp add: tree_leaf_iff)
  then show ?thesis by blast
qed

lemma optp2_frames:
  assumes "tree d h v A" "frames h C h'" "A \<inter> C = {}"
  shows "optp h' (optp h' v k) k2 = optp h (optp h v k) k2"
proof -
  obtain e A' where t: "tree e h (optp h v k) A'" "A' \<subseteq> A" using tree_optp [OF assms(1)] by blast
  have "optp h' (optp h v k) k2 = optp h (optp h v k) k2"
    using t(1) assms(2) by (rule optp_frames) (use t(2) assms(3) in auto)
  then show ?thesis using optp_frames [OF assms] by simp
qed

lemma isAnyLink_frames:
  assumes "tree d h v A" "frames h C h'" "A \<inter> C = {}"
  shows "isAnyLink h' v = isAnyLink h v" "isLink h' v = isLink h v"
  using optp2_frames [OF assms] by (simp_all add: isAnyLink_def isLink_def isResourceLink_def)

lemma linkAt_frames:
  "tree d h v A \<Longrightarrow> linkAt h v p K \<Longrightarrow> frames h C h' \<Longrightarrow> A \<inter> C = {} \<Longrightarrow> linkAt h' v p K"
proof (induction p arbitrary: d v A)
  case Nil
  have e: "optp h' (optp h' v ''sys'') ''linkType'' = optp h (optp h v ''sys'') ''linkType''"
    "optp h' (optp h' v ''sys'') ''id'' = optp h (optp h v ''sys'') ''id''"
    using optp2_frames [OF Nil(1,3,4)] by simp_all
  show ?case unfolding linkAt.simps e isAnyLink_frames(2) [OF Nil(1,3,4)]
    using Nil(2) by simp
next
  case (Cons k p)
  from Cons.prems(2) obtain a kvs x where r: "v = Ref a" "cellAt h a = CObj kvs" "map_of kvs k = Some x"
      "linkAt h x p K" "\<not> isAnyLink h v"
    by (auto split: jv.splits cell.splits option.splits)
  have a: "a \<in> A" "a < length h" using Cons.prems(1) r(1) by (auto elim: tree_RefE)
  have c: "cellAt h' a = cellAt h a" using Cons.prems(3) a(2) by (rule cellAt_frames) (use a Cons.prems(4) in auto)
  obtain e A' where t: "tree e h x A'" "A' \<subseteq> A - {a}"
    using tree_child [of d h a A "Name k" x] Cons.prems(1) r by auto
  have "linkAt h' x p K" using t(1) r(4) Cons.prems(3) by (rule Cons.IH) (use t(2) Cons.prems(4) in auto)
  then show ?case using r c isAnyLink_frames(1) [OF Cons.prems(1,3,4)] by simp
qed

lemma walkMutate_frames_Inr:
  assumes "\<And>h x. M h x \<noteq> Inl RangeError" "tree d h v A" "walkMutate n P M r h v = Inr res"
  shows "frames h A (snd res)"
proof -
  have "safely (d < n) (walkMutate n P M r h v) (\<lambda>res. frames h A (snd res))"
    using assms(1,2) by (rule walkMutate_frame)
  then show ?thesis using assms(3) by simp
qed

lemma walkKeys_frames_Inr:
  assumes M: "\<And>h x. M h x \<noteq> Inl RangeError"
    and "distinct ks" "trees d h (reads (cellAt h a) ks) B" "a \<notin> B" "a < length h"
    and "walkKeys n P M r h a ks = Inr h'"
  shows "frames h (insert a B) h'"
proof -
  have "safely (d < n) (walkMutate n P M r h v) (\<lambda>res. frames h A (snd res))"
    if "tree d h v A" for h v A
    using M that by (rule walkMutate_frame)
  then have "safely (d < n) (walkKeys n P M r h a ks) (\<lambda>h'. frames h (insert a B) h')"
    using assms(2-5) by (rule walkKeys_frame)
  then show ?thesis using assms(6) by simp
qed

lemma walkKeys_step:
  assumes M: "\<And>h x. M h x \<noteq> Inl RangeError"
    and "distinct (k # ks)" "trees d h (reads (cellAt h a) (k # ks)) B" "a \<notin> B" "a < length h"
    and "readKey (cellAt h a) k = Some x"
    and "walkKeys n P M r h a (k # ks) = Inr h'"
  obtains res A1 B1 where "walkMutate n P M r h x = Inr res" "tree d h x A1"
    "trees d h (reads (cellAt h a) ks) B1" "A1 \<inter> B1 = {}" "B = A1 \<union> B1"
    "frames h A1 (snd res)"
    "cellAt (store (snd res) a k (fst res)) a = writeKey (cellAt h a) k (fst res)"
    "trees d (store (snd res) a k (fst res)) (reads (cellAt (store (snd res) a k (fst res)) a) ks) B1"
    "frames h (insert a A1) (store (snd res) a k (fst res))"
    "walkKeys n P M r (store (snd res) a k (fst res)) a ks = Inr h'"
proof -
  have "reads (cellAt h a) (k # ks) = x # reads (cellAt h a) ks"
    using assms(6) by (simp add: reads_def List.map_filter_simps)
  with assms(3) obtain A1 B1 where t: "tree d h x A1" "trees d h (reads (cellAt h a) ks) B1"
      "A1 \<inter> B1 = {}" "B = A1 \<union> B1" by (auto elim: trees_ConsE)
  from assms(6,7) obtain res where w: "walkMutate n P M r h x = Inr res"
      "walkKeys n P M r (store (snd res) a k (fst res)) a ks = Inr h'"
    by (auto simp: bnd_eq_Inr)
  let ?h1 = "snd res" and ?h2 = "store (snd res) a k (fst res)"
  have f1: "frames h A1 ?h1" using M t(1) w(1) by (rule walkMutate_frames_Inr)
  have a1: "a \<notin> A1" using assms(4) t(4) by simp
  have l1: "a < length ?h1" using f1 assms(5) by (simp add: frames_def)
  have c1: "cellAt ?h1 a = cellAt h a" using f1 assms(5) a1 by (rule cellAt_frames)
  have c2: "cellAt ?h2 a = writeKey (cellAt h a) k (fst res)" using l1 c1 by (simp add: cellAt_store)
  have r2: "reads (cellAt ?h2 a) ks = reads (cellAt h a) ks"
    unfolding c2 using assms(2,6) by (intro reads_writeKey) auto
  have f2: "frames h (insert a A1) ?h2"
    using f1 frames_store [of ?h1 a k "fst res"] by (rule frames_trans) auto
  have "trees d ?h2 (reads (cellAt h a) ks) B1"
    using f2 t(2) by (rule tree_frames(2)) (use t(3,4) assms(4) in auto)
  then have t2: "trees d ?h2 (reads (cellAt ?h2 a) ks) B1" by (simp only: r2)
  show ?thesis using that [OF w(1) t f1 c2 t2 f2 w(2)] .
qed

lemma walkKeys_keeps:
  assumes M: "\<And>h x. M h x \<noteq> Inl RangeError"
  shows "distinct ks \<Longrightarrow> kk \<notin> set ks \<Longrightarrow> trees d h (reads (cellAt h a) ks) B \<Longrightarrow> a \<notin> B \<Longrightarrow>
     a < length h \<Longrightarrow> readKey (cellAt h a) kk = Some y \<Longrightarrow> walkKeys n P M r h a ks = Inr h' \<Longrightarrow>
     readKey (cellAt h' a) kk = Some y"
proof (induction ks arbitrary: h B)
  case Nil
  then show ?case by simp
next
  case (Cons k ks)
  show ?case
  proof (cases "readKey (cellAt h a) k")
    case None
    then have "reads (cellAt h a) (k # ks) = reads (cellAt h a) ks"
      by (simp add: reads_def List.map_filter_simps)
    then show ?thesis using Cons None by simp
  next
    case (Some x)
    show ?thesis
    proof (rule walkKeys_step [OF M Cons.prems(1,3,4,5) Some Cons.prems(7)])
    fix res A1 B1
    assume s: "walkMutate n P M r h x = Inr res" "tree d h x A1"
      "trees d h (reads (cellAt h a) ks) B1" "A1 \<inter> B1 = {}" "B = A1 \<union> B1"
      "frames h A1 (snd res)"
      "cellAt (store (snd res) a k (fst res)) a = writeKey (cellAt h a) k (fst res)"
      "trees d (store (snd res) a k (fst res)) (reads (cellAt (store (snd res) a k (fst res)) a) ks) B1"
      "frames h (insert a A1) (store (snd res) a k (fst res))"
      "walkKeys n P M r (store (snd res) a k (fst res)) a ks = Inr h'"
    let ?h2 = "store (snd res) a k (fst res)"
    have k2: "readKey (cellAt ?h2 a) kk = Some y"
      unfolding s(7) using Cons.prems(2,6) Some by (simp add: readKey_writeKey_other)
    have l2: "a < length ?h2" using s(9) Cons.prems(5) by (simp add: frames_def)
    have a2: "a \<notin> B1" using Cons.prems(4) s(5) by simp
    have dk: "distinct ks" "kk \<notin> set ks" using Cons.prems(1,2) by simp_all
    show ?thesis using dk s(8) a2 l2 k2 s(10) by (rule Cons.IH)
    qed
  qed
qed

lemma reads_member: "k \<in> set ks \<Longrightarrow> readKey c k = Some x \<Longrightarrow> x \<in> set (reads c ks)"
  by (induction ks) (auto simp: reads_def List.map_filter_simps split: option.splits)

lemma readKey_writeKey_same: "readKey c k = Some y \<Longrightarrow> readKey (writeKey c k v) k = Some v"
proof (cases c)
  case (CObj kvs)
  assume "readKey c k = Some y"
  with CObj show ?thesis by (cases k) (auto simp: update_conv')
next
  case (CArr vs)
  assume "readKey c k = Some y"
  with CArr show ?thesis by (cases k) (auto split: if_splits)
qed

lemma walkKeys_resolves:
  assumes M: "\<And>h x. M h x \<noteq> Inl RangeError"
    and IHp: "\<And>h x A1 res. tree d h x A1 \<Longrightarrow> linkAt h x p K \<Longrightarrow> walkMutate n P M r h x = Inr res \<Longrightarrow>
        resolvedAt (snd res) (fst res) p E A1"
  shows "distinct ks \<Longrightarrow> Name k \<in> set ks \<Longrightarrow> trees d h (reads (cellAt h a) ks) B \<Longrightarrow> a \<notin> B \<Longrightarrow>
     a < length h \<Longrightarrow> readKey (cellAt h a) (Name k) = Some x \<Longrightarrow> linkAt h x p K \<Longrightarrow>
     walkKeys n P M r h a ks = Inr h' \<Longrightarrow>
     \<exists>x' A'. readKey (cellAt h' a) (Name k) = Some x' \<and> A' \<subseteq> B \<and> resolvedAt h' x' p E A'"
proof (induction ks arbitrary: h B)
  case Nil
  then show ?case by simp
next
  case (Cons k1 ks)
  show ?case
  proof (cases "readKey (cellAt h a) k1")
    case None
    then have "reads (cellAt h a) (k1 # ks) = reads (cellAt h a) ks" "Name k \<in> set ks"
      using Cons.prems(2,6) by (auto simp: reads_def List.map_filter_simps)
    then show ?thesis using Cons None by simp
  next
    case (Some x1)
    show ?thesis
    proof (rule walkKeys_step [OF M Cons.prems(1,3,4,5) Some Cons.prems(8)])
    fix res A1 B1
    assume s: "walkMutate n P M r h x1 = Inr res" "tree d h x1 A1"
      "trees d h (reads (cellAt h a) ks) B1" "A1 \<inter> B1 = {}" "B = A1 \<union> B1"
      "frames h A1 (snd res)"
      "cellAt (store (snd res) a k1 (fst res)) a = writeKey (cellAt h a) k1 (fst res)"
      "trees d (store (snd res) a k1 (fst res)) (reads (cellAt (store (snd res) a k1 (fst res)) a) ks) B1"
      "frames h (insert a A1) (store (snd res) a k1 (fst res))"
      "walkKeys n P M r (store (snd res) a k1 (fst res)) a ks = Inr h'"
    let ?h2 = "store (snd res) a k1 (fst res)"
    have l2: "a < length ?h2" using s(9) Cons.prems(5) by (simp add: frames_def)
    have a1: "a \<notin> A1" "a \<notin> B1" using Cons.prems(4) s(5) by auto
    show ?thesis
    proof (cases "k1 = Name k")
      case True
      then have x1: "x1 = x" using Some Cons.prems(6) by simp
      have "resolvedAt (snd res) (fst res) p E A1" using s(2) Cons.prems(7) s(1) unfolding x1 by (rule IHp)
      then have r2: "resolvedAt ?h2 (fst res) p E A1"
        using frames_store by (rule resolvedAt_frames) (use a1 in simp)
      have k2: "readKey (cellAt ?h2 a) (Name k) = Some (fst res)"
        unfolding s(7) using Some True by (simp add: readKey_writeKey_same)
      have nk: "Name k \<notin> set ks" and dk: "distinct ks" using Cons.prems(1) True by simp_all
      have "readKey (cellAt h' a) (Name k) = Some (fst res)"
        using M dk nk s(8) a1(2) l2 k2 s(10) by (rule walkKeys_keeps)
      moreover have "frames ?h2 (insert a B1) h'"
        using M dk s(8) a1(2) l2 s(10) by (rule walkKeys_frames_Inr)
      with r2 have "resolvedAt h' (fst res) p E A1" by (rule resolvedAt_frames) (use a1 s(4) in auto)
      ultimately show ?thesis using s(5) by blast
    next
      case False
      then have m: "Name k \<in> set ks" using Cons.prems(2) by simp
      have dk: "distinct ks" using Cons.prems(1) by simp
      have k2: "readKey (cellAt ?h2 a) (Name k) = Some x"
        unfolding s(7) using False Some Cons.prems(6) by (simp add: readKey_writeKey_other)
      have "x \<in> set (reads (cellAt h a) ks)" using m Cons.prems(6) by (rule reads_member)
      then obtain Ax where ax: "tree d h x Ax" "Ax \<subseteq> B1" using trees_member [OF s(3)] by blast
      have l: "linkAt ?h2 x p K" using ax(1) Cons.prems(7) s(9)
        by (rule linkAt_frames) (use ax(2) s(4) a1 in auto)
      have "\<exists>x' A'. readKey (cellAt h' a) (Name k) = Some x' \<and> A' \<subseteq> B1 \<and> resolvedAt h' x' p E A'"
        using dk m s(8) a1(2) l2 k2 l s(10) by (rule Cons.IH)
      then show ?thesis using s(5) by blast
    qed
    qed
  qed
qed

lemma map_of_filter_kept:
  "map_of kvs k = Some x \<Longrightarrow> Q x \<Longrightarrow> map_of (filter (\<lambda>kv. Q (snd kv)) kvs) k = Some x"
  by (induction kvs) (auto split: if_splits)

lemma resolvedAt_not_marker: "resolvedAt h v p E A \<Longrightarrow> E \<noteq> Unres \<Longrightarrow> v \<noteq> Unres"
  by (cases p) auto

lemma linkAt_resolves:
  assumes "linkAt h v [] K" "m K = Some E" "truthy E" "E \<noteq> Unres"
  shows "normalizeLink S m r h v = Inr E"
proof -
  from assms(1) obtain t i where l: "isLink h v" "optp h (optp h v ''sys'') ''linkType'' = Str t"
      "optp h (optp h v ''sys'') ''id'' = Str i" "K = t @ ''!'' @ i"
    by (auto split: jv.splits)
  have "getResolvedLink S h m v = Inr (orUnresolved (m K))"
    using getResolvedLink_direct [OF l(1), of S m] l(2,3,4) by (simp add: globalKey_def)
  then show ?thesis using assms(2,3,4) by (simp add: normalizeLink_def orUnresolved_def)
qed

lemma walkMutate_resolves:
  assumes E: "m K = Some E" "truthy E" "E \<noteq> Unres"
  shows "tree d h v A \<Longrightarrow> linkAt h v p K \<Longrightarrow>
     walkMutate n isAnyLink (normalizeLink S m r) r h v = Inr res \<Longrightarrow>
     resolvedAt (snd res) (fst res) p E A \<and> (p \<noteq> [] \<longrightarrow> fst res = v)"
proof (induction p arbitrary: d h v A n res)
  case Nil
  then obtain n' where n: "n = Suc n'" by (cases n) auto
  have "isAnyLink h v" using Nil(2) by (simp add: isAnyLink_def)
  moreover have "normalizeLink S m r h v = Inr E" using Nil(2) E by (rule linkAt_resolves)
  ultimately show ?case using Nil(3) by (auto simp: n)
next
  case (Cons k p)
  from Cons.prems(2) obtain a kvs x where r: "v = Ref a" "cellAt h a = CObj kvs" "map_of kvs k = Some x"
      "linkAt h x p K" "\<not> isAnyLink h v"
    by (auto split: jv.splits cell.splits option.splits)
  from Cons.prems(1) r(1) obtain e B where t: "d = Suc e" "a < length h" "distinct (ownKeys (cellAt h a))"
      "trees e h (cellValues (cellAt h a)) B" "a \<notin> B" "A = insert a B"
    by (auto elim: tree_RefE)
  obtain n' where n: "n = Suc n'" using Cons.prems(3) by (cases n) auto
  let ?M = "normalizeLink S m r"
  from Cons.prems(3) r(1,5) obtain hk where w: "walkKeys n' isAnyLink ?M r h a (ownKeys (cellAt h a)) = Inr hk"
      "res = (if r then cleanUpLinks hk (Ref a) else (Ref a, hk))"
    by (auto simp: n bnd_eq_Inr)
  have M: "\<And>h x. ?M h x \<noteq> Inl RangeError" by (rule normalizeLink_no_RangeError)
  have IHp: "\<And>h x A1 res. tree e h x A1 \<Longrightarrow> linkAt h x p K \<Longrightarrow>
      walkMutate n' isAnyLink ?M r h x = Inr res \<Longrightarrow> resolvedAt (snd res) (fst res) p E A1"
    using Cons.IH by blast
  have tr: "trees e h (reads (cellAt h a) (ownKeys (cellAt h a))) B"
    using t(3,4) by (simp add: reads_ownKeys)
  have "(k, x) \<in> set kvs" using r(3) by (rule map_of_SomeD)
  then have "k \<in> fst ` set kvs" by force
  then have mem: "Name k \<in> set (ownKeys (cellAt h a))" using r(2) by (simp add: image_image image_iff)
  have rk: "readKey (cellAt h a) (Name k) = Some x" using r(2,3) by simp
  have "\<exists>x' A'. readKey (cellAt hk a) (Name k) = Some x' \<and> A' \<subseteq> B \<and> resolvedAt hk x' p E A'"
    using M IHp t(3) mem tr t(5) t(2) rk r(4) w(1) by (rule walkKeys_resolves)
  then obtain x' A' where x': "readKey (cellAt hk a) (Name k) = Some x'" "A' \<subseteq> B"
    "resolvedAt hk x' p E A'" by blast
  have fk: "frames h (insert a B) hk" using M t(3) tr t(5,2) w(1) by (rule walkKeys_frames_Inr)
  then have lk: "a < length hk" using t(2) by (simp add: frames_def)
  obtain kvs' where c: "hk ! a = CObj kvs'" "map_of kvs' k = Some x'"
    using x'(1) lk by (cases "hk ! a") (auto simp: cellAt_def)
  have nA: "a \<notin> A'" using x'(2) t(5) by auto
  show ?case
  proof (cases r)
    case False
    then have "res = (Ref a, hk)" using w(2) by simp
    then show ?thesis using c lk x' nA t(6) r(1) by auto
  next
    case True
    let ?h' = "hk[a := CObj (filter (\<lambda>kv. snd kv \<noteq> Unres) kvs')]"
    have res: "res = (Ref a, ?h')" using True w(2) c(1) lk by (simp add: cleanUpLinks_def cellAt_def)
    have "x' \<noteq> Unres" using x'(3) E(3) by (rule resolvedAt_not_marker)
    then have "map_of (filter (\<lambda>kv. snd kv \<noteq> Unres) kvs') k = Some x'"
      using c(2) by (intro map_of_filter_kept) auto
    moreover have "resolvedAt ?h' x' p E A'"
      using x'(3) frames_update by (rule resolvedAt_frames) (use nA in simp)
    ultimately show ?thesis using res lk x'(2) nA t(6) r(1) by auto
  qed
qed

lemma entryCell_lookup:
  "\<exists>kvs. entryCell h (Ref a) eps (CObj acc) = CObj kvs \<and>
     map_of kvs k =
       (if k \<in> set eps \<and> readKey (cellAt h a) (Name k) \<noteq> None
        then readKey (cellAt h a) (Name k) else map_of acc k)"
proof (induction eps arbitrary: acc)
  case Nil
  then show ?case by (simp add: entryCell_def)
next
  case (Cons e eps)
  show ?case
  proof (cases "readKey (cellAt h a) (Name e)")
    case None
    then have "entryCell h (Ref a) (e # eps) (CObj acc) = entryCell h (Ref a) eps (CObj acc)"
      by (simp add: entryCell_def)
    then show ?thesis using Cons [of acc] None by auto
  next
    case (Some v)
    then have s: "entryCell h (Ref a) (e # eps) (CObj acc) =
        entryCell h (Ref a) eps (CObj (AList.update e v acc))"
      by (simp add: entryCell_def)
    show ?thesis unfolding s using Cons [of "AList.update e v acc"] Some
      by (auto simp: update_conv')
  qed
qed

lemma objectAssign_field:
  assumes "t \<noteq> s" "cellAt h s = CObj skvs" "map_of skvs k = Some x" "cellAt h t = CObj tkvs"
    "t < length h"
  shows "\<exists>kvs. cellAt (objectAssign h (Ref t) (Ref s)) t = CObj kvs \<and> map_of kvs k = Some x"
proof -
  let ?f = "\<lambda>k h'. case readKey (cellAt h' s) k of Some v \<Rightarrow> store h' t (asName k) v | None \<Rightarrow> h'"
  have step: "\<exists>kvs. cellAt (fold ?f ks g) t = CObj kvs \<and> map_of kvs k = Some x"
    if "cellAt g s = CObj skvs" "cellAt g t = CObj gkvs" "t < length g"
      "Name k \<in> set ks \<or> map_of gkvs k = Some x" "\<forall>q \<in> set ks. \<exists>n. q = Name n"
    for ks g gkvs
    using that
  proof (induction ks arbitrary: g gkvs)
    case Nil
    then show ?case by simp
  next
    case (Cons q ks)
    obtain n where q: "q = Name n" using Cons.prems(5) by auto
    show ?case
    proof (cases "map_of skvs n")
      case None
      then have "?f q g = g" using Cons.prems(1) q by simp
      moreover have "n \<noteq> k" using None assms(3) by auto
      ultimately show ?thesis using Cons.IH [of g gkvs] Cons.prems q by auto
    next
      case (Some v)
      let ?g = "store g t (Name n) v"
      have g: "?f q g = ?g" using Some Cons.prems(1) q by (simp add: asName_def)
      have ct: "cellAt ?g t = CObj (AList.update n v gkvs)"
        using Cons.prems(2,3) by (simp add: cellAt_store)
      have "cellAt ?g s = cellAt g s" using assms(1) by (simp add: cellAt_def store_def)
      then have cs: "cellAt ?g s = CObj skvs" using Cons.prems(1) by simp
      have "Name k \<in> set ks \<or> map_of (AList.update n v gkvs) k = Some x"
        using Cons.prems(4) q Some assms(3) by (cases "n = k") (auto simp: update_conv')
      then have "\<exists>kvs. cellAt (fold ?f ks ?g) t = CObj kvs \<and> map_of kvs k = Some x"
        using cs ct Cons.prems(3,5) by (intro Cons.IH [of ?g "AList.update n v gkvs"]) (auto simp: store_def)
      then show ?thesis using g by simp
    qed
  qed
  have "(k, x) \<in> set skvs" using assms(3) by (rule map_of_SomeD)
  then have "k \<in> fst ` set skvs" by force
  then have "Name k \<in> set (ownKeys (cellAt h s))" using assms(2) by (simp add: image_image image_iff)
  moreover have "\<forall>q \<in> set (ownKeys (cellAt h s)). \<exists>n. q = Name n" using assms(2) by auto
  ultimately show ?thesis
    using step [of h tkvs "ownKeys (cellAt h s)"] assms(2,4,5) by (simp add: objectAssign_def)
qed

lemma resolveItem_resolves:
  assumes E: "m K = Some E" "truthy E" "E \<noteq> Unres"
    and t: "tree d h (Ref a) A"
    and l: "linkAt h (Ref a) (k # p) K"
    and eps: "case itemEntryPoints opts of None \<Rightarrow> True | Some eps \<Rightarrow> k \<in> set eps"
    and run: "resolveItem S fuel opts m h (Ref a) = Inr h'"
  shows "resolvedAt h' (Ref a) (k # p) E A"
proof (cases "itemEntryPoints opts")
  case None
  from run None obtain res where w: "walkMutate fuel isAnyLink (normalizeLink S m (removeUnresolved opts))
      (removeUnresolved opts) h (Ref a) = Inr res" "h' = objectAssign (snd res) (Ref a) (fst res)"
    by (auto simp: resolveItem_def makeEntryObject_def bnd_eq_Inr)
  have rr: "resolvedAt (snd res) (fst res) (k # p) E A \<and> (k # p \<noteq> [] \<longrightarrow> fst res = Ref a)"
    using E t l w(1) by (rule walkMutate_resolves)
  then have fr: "fst res = Ref a" by simp
  have "resolvedAt (snd res) (fst res) (k # p) E A" using rr by (rule conjunct1)
  then show ?thesis using w(2) fr by (simp add: objectAssign_self del: resolvedAt.simps)
next
  case (Some es)
  let ?L = "length h"
  let ?h1 = "h @ [entryCell h (Ref a) es (CObj [])]"
  obtain B where B: "tree d ?h1 (Ref ?L) (insert ?L B)" "B \<subseteq> A - {a}"
    using entry_object_tree [OF t] by blast
  from l obtain kvs x where r: "cellAt h a = CObj kvs" "map_of kvs k = Some x" "linkAt h x p K"
      "\<not> isAnyLink h (Ref a)"
    by (auto split: cell.splits option.splits)
  have a: "a \<in> A" "a < length h" using t by (auto elim: tree_RefE)
  have f1: "frames h {} ?h1" by (rule frames_append)
  have ke: "k \<in> set es" using eps Some by simp
  obtain ekvs where e: "entryCell h (Ref a) es (CObj []) = CObj ekvs"
      "\<And>q. map_of ekvs q = (if q \<in> set es \<and> readKey (cellAt h a) (Name q) \<noteq> None
          then readKey (cellAt h a) (Name q) else map_of [] q)"
  proof -
    have "\<exists>kvs. entryCell h (Ref a) es (CObj []) = CObj kvs" using entryCell_lookup [of h a es "[]"] by blast
    then obtain ekvs where 1: "entryCell h (Ref a) es (CObj []) = CObj ekvs" by blast
    have "map_of ekvs q = (if q \<in> set es \<and> readKey (cellAt h a) (Name q) \<noteq> None
          then readKey (cellAt h a) (Name q) else map_of [] q)" for q
      using entryCell_lookup [of h a es "[]" q] 1 by auto
    then show ?thesis using that 1 by blast
  qed
  have cL: "cellAt ?h1 ?L = CObj ekvs" using e(1) by (simp add: cellAt_def)
  have ek: "map_of ekvs k = Some x" using e(2) [of k] ke r(1,2) by simp
  have sys: "optp ?h1 (Ref ?L) ''sys'' = Undef \<or> optp ?h1 (Ref ?L) ''sys'' = optp h (Ref a) ''sys''"
    using cL e(2) [of "''sys''"] r(1) by (auto simp: optp_def readAt_def split: option.splits)
  obtain ds As where ts: "tree ds h (optp h (Ref a) ''sys'') As" using tree_optp [OF t] by blast
  have "optp ?h1 (optp h (Ref a) ''sys'') ''type'' = optp h (optp h (Ref a) ''sys'') ''type''"
    using ts f1 by (rule optp_frames) simp
  then have "optp ?h1 (optp ?h1 (Ref ?L) ''sys'') ''type'' = Undef \<or>
      optp ?h1 (optp ?h1 (Ref ?L) ''sys'') ''type'' = optp h (optp h (Ref a) ''sys'') ''type''"
    using sys by (auto simp: optp_def readAt_def)
  then have nl: "\<not> isAnyLink ?h1 (Ref ?L)"
    using r(4) by (auto simp: isAnyLink_def isLink_def isResourceLink_def)
  obtain dx Ax where tx: "tree dx h x Ax"
    using tree_child [OF t, of "Name k" x] r(1,2) by auto
  have "linkAt ?h1 x p K" using tx r(3) f1 by (rule linkAt_frames) simp
  then have lL: "linkAt ?h1 (Ref ?L) (k # p) K" using nl cL ek by simp
  from run Some obtain res where w: "walkMutate fuel isAnyLink (normalizeLink S m (removeUnresolved opts))
      (removeUnresolved opts) ?h1 (Ref ?L) = Inr res" "h' = objectAssign (snd res) (Ref a) (fst res)"
    by (auto simp: resolveItem_def makeEntryObject_Some bnd_eq_Inr)
  have rr: "resolvedAt (snd res) (fst res) (k # p) E (insert ?L B) \<and> (k # p \<noteq> [] \<longrightarrow> fst res = Ref ?L)"
    using E B(1) lL w(1) by (rule walkMutate_resolves)
  then have fr: "fst res = Ref ?L" by simp
  from rr obtain rkvs x' A' where x': "?L < length (snd res)" "snd res ! ?L = CObj rkvs"
      "map_of rkvs k = Some x'" "A' \<subseteq> insert ?L B - {?L}" "resolvedAt (snd res) x' p E A'"
    unfolding fr by auto
  have f2: "frames ?h1 (insert ?L B) (snd res)"
    using normalizeLink_no_RangeError B(1) w(1) by (rule walkMutate_frames_Inr)
  have "cellAt (snd res) a = cellAt ?h1 a"
    using f2 by (rule cellAt_frames) (use a(2) B(2) in auto)
  then have ca: "cellAt (snd res) a = CObj kvs" using r(1) a(2) by (simp add: cellAt_def nth_append)
  have la: "a < length (snd res)" using f2 a(2) by (simp add: frames_def)
  have "\<exists>kvs. cellAt (objectAssign (snd res) (Ref a) (Ref ?L)) a = CObj kvs \<and> map_of kvs k = Some x'"
    using _ _ x'(3) ca la by (rule objectAssign_field) (use a(2) x'(1,2) in \<open>auto simp: cellAt_def\<close>)
  then obtain fkvs where fk: "cellAt h' a = CObj fkvs" "map_of fkvs k = Some x'"
    using w(2) fr by auto
  have lh: "a < length h'" using w(2) la frames_objectAssign [of "snd res" a "fst res"]
    by (simp add: frames_def)
  have nA: "a \<notin> A'" "A' \<subseteq> A - {a}" using x'(4) B(2) by auto
  have "resolvedAt h' x' p E A'"
    using x'(5) frames_objectAssign [of "snd res" a "fst res"] unfolding w(2)
    by (rule resolvedAt_frames) (use nA in simp)
  then show ?thesis using fk lh a(1) nA(2) by (auto simp: cellAt_def)
qed

lemma resolveItem_frames_Inr:
  assumes "tree d h (Ref a) A" "resolveItem S fuel opts m h (Ref a) = Inr h'"
  shows "frames h A h'"
  using resolveItem_frame [OF assms(1), of fuel S opts m] assms(2) by simp

lemma resolveAll_frames_Inr:
  assumes "trees d h es B" "\<forall>e \<in> set es. isRef e" "resolveAll S fuel opts m h es = Inr h'"
  shows "frames h B h'"
  using resolveAll_frame [OF assms(1,2), of fuel S opts m] assms(3) by simp

lemma resolveAll_resolves:
  assumes E: "m K = Some E" "truthy E" "E \<noteq> Unres"
    and eps: "case itemEntryPoints opts of None \<Rightarrow> True | Some eps \<Rightarrow> k \<in> set eps"
  shows "trees d h es B \<Longrightarrow> \<forall>e \<in> set es. isRef e \<Longrightarrow> Ref a \<in> set es \<Longrightarrow>
     linkAt h (Ref a) (k # p) K \<Longrightarrow> resolveAll S fuel opts m h es = Inr h' \<Longrightarrow>
     \<exists>A. resolvedAt h' (Ref a) (k # p) E A"
proof (induction es arbitrary: h B)
  case Nil
  then show ?case by simp
next
  case (Cons e es)
  from Cons.prems(1) obtain A1 B1 where t: "tree d h e A1" "trees d h es B1" "A1 \<inter> B1 = {}"
    by (auto elim: trees_ConsE)
  obtain a1 where a1: "e = Ref a1" using Cons.prems(2) by (cases e) simp_all
  from Cons.prems(5) obtain h1 where run: "resolveItem S fuel opts m h e = Inr h1"
      "resolveAll S fuel opts m h1 es = Inr h'" by (auto simp: bnd_eq_Inr)
  have f1: "frames h A1 h1" using t(1) run(1) unfolding a1 by (rule resolveItem_frames_Inr)
  have t1: "trees d h1 es B1" using f1 t(2) by (rule tree_frames(2)) (use t(3) in auto)
  have r1: "\<forall>e \<in> set es. isRef e" using Cons.prems(2) by simp
  show ?case
  proof (cases "e = Ref a")
    case True
    have "resolvedAt h1 (Ref a) (k # p) E A1"
      using E t(1) Cons.prems(4) eps run(1) unfolding True by (rule resolveItem_resolves)
    moreover have "frames h1 B1 h'" using t1 r1 run(2) by (rule resolveAll_frames_Inr)
    ultimately have "resolvedAt h' (Ref a) (k # p) E A1" by (rule resolvedAt_frames) (use t(3) in auto)
    then show ?thesis by blast
  next
    case False
    then have m: "Ref a \<in> set es" using Cons.prems(3) by simp
    obtain Aa where aa: "tree d h (Ref a) Aa" "Aa \<subseteq> B1" using trees_member [OF t(2) m] by blast
    have "linkAt h1 (Ref a) (k # p) K" using aa(1) Cons.prems(4) f1
      by (rule linkAt_frames) (use aa(2) t(3) in auto)
    with t1 r1 m show ?thesis using run(2) by (rule Cons.IH)
  qed
qed

lemma newMap_value: "entityPairs S h es = Inr pairs \<Longrightarrow> newMap pairs k = Some v \<Longrightarrow> v \<in> set es"
  using newMap_last [of S h es pairs k v] by auto

lemma isRef_Ref: "isRef v \<Longrightarrow> \<exists>a. v = Ref a"
  by (cases v) simp_all

lemma link_resolved:
  assumes wf: "wellFormedResponse resp" and its: "items resp = Some its"
    and c: "copied resp = (ivs, incs, h)"
    and v: "v \<in> set (ivs @ concat incs)" "truthy (optp h v ''sys'')"
    and l: "linkAt h v (k # p) K"
    and m: "entityMapOf S resp = Inr m" "m K = Some E"
    and eps: "case itemEntryPoints opts of None \<Rightarrow> True | Some eps \<Rightarrow> k \<in> set eps"
    and run: "resolveResponse S fuel resp opts = Inr (out, h')"
  shows "out = ivs \<and> pathAt h' v (map Name (k # p)) = E"
proof -
  obtain B where B: "trees (responseDepth resp) h (ivs @ concat incs) B"
    using copied_shape [OF wf its c] by blast
  from m(1) c obtain es pairs where k: "keepEntities h (ivs @ concat incs) = Inr es"
      "entityPairs S h es = Inr pairs" "m = newMap pairs"
    by (auto simp: entityMapOf_def bnd_eq_Inr)
  have es: "es = filter (\<lambda>e. truthy (optp h e ''sys'')) (ivs @ concat incs)"
    using k(1) by (rule keepEntities_filter)
  obtain C where C: "trees (responseDepth resp) h es C" unfolding es using trees_filter [OF B] by blast
  have ts: "\<forall>e \<in> set es. truthy (optp h e ''sys'')" unfolding es by (simp only: set_filter) blast
  then have r: "\<forall>e \<in> set es. isRef e" using truthy_sys_isRef by blast
  have ve: "v \<in> set es" unfolding es using v by simp
  then obtain a where a: "v = Ref a" using r isRef_Ref by blast
  have "E \<in> set es" using k(2) m(2) unfolding k(3) by (rule newMap_value)
  then have "isRef E" using r by blast
  then have E: "truthy E" "E \<noteq> Unres" by (cases E; simp)+
  from run have "resolveStore S fuel opts h ivs incs = Inr (out, h')"
    using resolveResponse_copied [OF its c] by simp
  then have run': "resolveAll S fuel opts m h es = Inr h'" "out = ivs"
    using k by (auto simp: resolveStore_def bnd_eq_Inr)
  have "\<exists>A. resolvedAt h' (Ref a) (k # p) E A"
    using m(2) E eps C r ve [unfolded a] l [unfolded a] run'(1) by (rule resolveAll_resolves)
  then show ?thesis using run'(2) a resolvedAt_pathAt by blast
qed

text \<open>C7.  Two items A and B of a well-formed response, A holding at some field path a
  link that the index resolves to B and B holding at some field path a link that the index
  resolves to A (the first field of each path being an entry point when entry points are given):
  with more stack than the response is deep the run does not exhaust it, and in every result the
  path in A leads to the record B itself and the path in B leads to the record A itself, the
  output list being the list of the records.\<close>

theorem mutual_links_resolved:
  assumes "wellFormedResponse resp" and "items resp = Some its" and "copied resp = (ivs, incs, h)"
    and "i < length its" and "j < length its"
    and "linkAt h (ivs ! i) (kA # pA) KA" and "linkAt h (ivs ! j) (kB # pB) KB"
    and "entityMapOf S resp = Inr m" and "m KA = Some (ivs ! j)" and "m KB = Some (ivs ! i)"
    and "case itemEntryPoints opts of None \<Rightarrow> True | Some eps \<Rightarrow> kA \<in> set eps \<and> kB \<in> set eps"
    and "responseDepth resp < fuel"
  shows "resolveResponse S fuel resp opts \<noteq> Inl RangeError \<and>
         (\<forall>out h'. resolveResponse S fuel resp opts = Inr (out, h') \<longrightarrow>
            out = ivs \<and>
            pathAt h' (out ! i) (map Name (kA # pA)) = out ! j \<and>
            pathAt h' (out ! j) (map Name (kB # pB)) = out ! i)"
proof (intro conjI allI impI)
  show "resolveResponse S fuel resp opts \<noteq> Inl RangeError"
    using assms(1,12) by (rule resolveResponse_room)
next
  fix out h' assume run: "resolveResponse S fuel resp opts = Inr (out, h')"
  obtain B where B: "representsList h ivs its" using copied_shape [OF assms(1,2,3)] by blast
  then have len: "length ivs = length its" using representsList_nth by blast
  from assms(8,3) obtain es pairs where k: "keepEntities h (ivs @ concat incs) = Inr es"
      "entityPairs S h es = Inr pairs" "m = newMap pairs"
    by (auto simp: entityMapOf_def bnd_eq_Inr)
  have es: "es = filter (\<lambda>e. truthy (optp h e ''sys'')) (ivs @ concat incs)"
    using k(1) by (rule keepEntities_filter)
  have "ivs ! i \<in> set es" using k(2) assms(10) unfolding k(3) by (rule newMap_value)
  moreover have "ivs ! j \<in> set es" using k(2) assms(9) unfolding k(3) by (rule newMap_value)
  ultimately have "ivs ! i \<in> set es" "ivs ! j \<in> set es" by simp_all
  then have ti: "truthy (optp h (ivs ! i) ''sys'')" "truthy (optp h (ivs ! j) ''sys'')"
    unfolding es by (simp_all only: set_filter mem_Collect_eq)
  have mi: "ivs ! i \<in> set (ivs @ concat incs)" "ivs ! j \<in> set (ivs @ concat incs)"
    using assms(4,5) len by simp_all
  have eA: "case itemEntryPoints opts of None \<Rightarrow> True | Some eps \<Rightarrow> kA \<in> set eps"
    and eB: "case itemEntryPoints opts of None \<Rightarrow> True | Some eps \<Rightarrow> kB \<in> set eps"
    using assms(11) by (auto split: option.splits)
  have 1: "out = ivs \<and> pathAt h' (ivs ! i) (map Name (kA # pA)) = ivs ! j"
    using assms(1,2,3) mi(1) ti(1) assms(6,8,9) eA run by (rule link_resolved)
  have 2: "out = ivs \<and> pathAt h' (ivs ! j) (map Name (kB # pB)) = ivs ! i"
    using assms(1,2,3) mi(2) ti(2) assms(7,8,10) eB run by (rule link_resolved)
  show "out = ivs" using 1 by simp
  show "pathAt h' (out ! i) (map Name (kA # pA)) = out ! j" using 1 by simp
  show "pathAt h' (out ! j) (map Name (kB # pB)) = out ! i" using 1 2 by simp
qed

text \<open>The two mutually linked records of \<open>mutual\<close>: \<open>fields.b\<close> of the first is the second record
  and \<open>fields.a\<close> of the second is the first.\<close>

theorem mutual_links_resolved_witness:
  "responseDepth mutual < 5 \<and>
   resolveResponse objectString 5 mutual keepAll = Inr ([Ref 4, Ref 9], mutualResolved) \<and>
   pathAt mutualResolved (Ref 4) [Name ''fields'', Name ''b''] = Ref 9 \<and>
   pathAt mutualResolved (Ref 9) [Name ''fields'', Name ''a''] = Ref 4"
proof -
  let ?its = "[plainEntry ''Entry'' ''a'' [(''fields'', JObj [(''b'', linkTo ''Entry'' ''b'')])],
               plainEntry ''Entry'' ''b'' [(''fields'', JObj [(''a'', linkTo ''Entry'' ''a'')])]]"
  let ?m = "newMap [(''Entry!a'', Ref 4), (''Entry!b'', Ref 9)]"
  have 1: "wellFormedResponse mutual" by code_simp
  have 2: "items mutual = Some ?its" by (simp add: mutual_def)
  have 3: "copied mutual = ([Ref 4, Ref 9], [], mutualCopied)" by code_simp
  have 4: "(0::nat) < length ?its" "(1::nat) < length ?its" by simp_all
  have 5: "linkAt mutualCopied ([Ref 4, Ref 9] ! 0) (''fields'' # [''b'']) ''Entry!b''" by code_simp
  have 6: "linkAt mutualCopied ([Ref 4, Ref 9] ! 1) (''fields'' # [''a'']) ''Entry!a''" by code_simp
  have k: "keepEntities mutualCopied ([Ref 4, Ref 9] @ concat []) = Inr [Ref 4, Ref 9]" by code_simp
  have p: "entityPairs objectString mutualCopied [Ref 4, Ref 9] =
      Inr [(''Entry!a'', Ref 4), (''Entry!b'', Ref 9)]" by code_simp
  have 7: "entityMapOf objectString mutual = Inr ?m"
    using k by (simp add: entityMapOf_def 3 p del: keepEntities.simps entityPairs.simps)
  have 8: "?m ''Entry!b'' = Some ([Ref 4, Ref 9] ! 1)" "?m ''Entry!a'' = Some ([Ref 4, Ref 9] ! 0)"
    by (simp_all add: newMap_def)
  have 9: "case itemEntryPoints keepAll of None \<Rightarrow> True
      | Some eps \<Rightarrow> ''fields'' \<in> set eps \<and> ''fields'' \<in> set eps" by (simp add: keepAll_def)
  have 10: "responseDepth mutual < 5" by code_simp
  have run: "resolveResponse objectString 5 mutual keepAll = Inr ([Ref 4, Ref 9], mutualResolved)"
    by code_simp
  show ?thesis
    using mutual_links_resolved [OF 1 2 3 4 5 6 7 8 9 10] run 10 by simp
qed

lemma writeKey_fields:
  "readKey (CObj kvs) k = Some y \<Longrightarrow> \<exists>kvs'. writeKey (CObj kvs) k v = CObj kvs' \<and> map fst kvs' = map fst kvs"
proof (cases k)
  case (Name n)
  assume "readKey (CObj kvs) k = Some y"
  then have "(n, y) \<in> set kvs" using Name by (auto dest: map_of_SomeD)
  then have "n \<in> fst ` set kvs" by force
  then show ?thesis using Name by (simp add: update_keys)
qed simp

lemma walkKeys_fields:
  assumes M: "\<And>h x. M h x \<noteq> Inl RangeError"
  shows "distinct ks \<Longrightarrow> trees d h (reads (cellAt h a) ks) B \<Longrightarrow> a \<notin> B \<Longrightarrow>
     a < length h \<Longrightarrow> cellAt h a = CObj kvs \<Longrightarrow> walkKeys n P M r h a ks = Inr h' \<Longrightarrow>
     \<exists>kvs'. cellAt h' a = CObj kvs' \<and> map fst kvs' = map fst kvs"
proof (induction ks arbitrary: h B kvs)
  case Nil
  then show ?case by simp
next
  case (Cons k ks)
  show ?case
  proof (cases "readKey (cellAt h a) k")
    case None
    then have "reads (cellAt h a) (k # ks) = reads (cellAt h a) ks"
      by (simp add: reads_def List.map_filter_simps)
    then show ?thesis using Cons None by simp
  next
    case (Some x)
    show ?thesis
    proof (rule walkKeys_step [OF M Cons.prems(1,2,3,4) Some Cons.prems(6)])
    fix res A1 B1
    assume s: "walkMutate n P M r h x = Inr res" "tree d h x A1"
      "trees d h (reads (cellAt h a) ks) B1" "A1 \<inter> B1 = {}" "B = A1 \<union> B1"
      "frames h A1 (snd res)"
      "cellAt (store (snd res) a k (fst res)) a = writeKey (cellAt h a) k (fst res)"
      "trees d (store (snd res) a k (fst res)) (reads (cellAt (store (snd res) a k (fst res)) a) ks) B1"
      "frames h (insert a A1) (store (snd res) a k (fst res))"
      "walkKeys n P M r (store (snd res) a k (fst res)) a ks = Inr h'"
    let ?h2 = "store (snd res) a k (fst res)"
    obtain kvs2 where k2: "cellAt ?h2 a = CObj kvs2" "map fst kvs2 = map fst kvs"
      unfolding s(7) using writeKey_fields [of kvs k x "fst res"] Some Cons.prems(5) by auto
    have l2: "a < length ?h2" using s(9) Cons.prems(4) by (simp add: frames_def)
    have a2: "a \<notin> B1" using Cons.prems(3) s(5) by simp
    have dk: "distinct ks" using Cons.prems(1) by simp
    have "\<exists>kvs'. cellAt h' a = CObj kvs' \<and> map fst kvs' = map fst kvs2"
      using dk s(8) a2 l2 k2(1) s(10) by (rule Cons.IH)
    then show ?thesis using k2(2) by simp
    qed
  qed
qed

lemma walkMutate_fields:
  assumes M: "\<And>h x. M h x \<noteq> Inl RangeError"
    and t: "tree d h (Ref a) A" and c: "cellAt h a = CObj kvs" and p: "\<not> P h (Ref a)"
    and run: "walkMutate n P M r h (Ref a) = Inr res"
  shows "fst res = Ref a \<and>
     (\<exists>kvs'. cellAt (snd res) a = CObj kvs' \<and> set (map fst kvs') \<subseteq> set (map fst kvs) \<and>
        (\<not> r \<longrightarrow> map fst kvs' = map fst kvs))"
proof -
  from run obtain n' where n: "n = Suc n'" by (cases n) auto
  from t obtain e C where tn: "d = Suc e" "a < length h" "distinct (ownKeys (cellAt h a))"
      "trees e h (cellValues (cellAt h a)) C" "a \<notin> C" "A = insert a C"
    by (auto elim: tree_RefE)
  from run p obtain h1 where w: "walkKeys n' P M r h a (ownKeys (cellAt h a)) = Inr h1"
      "res = (if r then cleanUpLinks h1 (Ref a) else (Ref a, h1))"
    unfolding n by (auto simp: bnd_eq_Inr)
  have tr: "trees e h (reads (cellAt h a) (ownKeys (cellAt h a))) C"
    using tn(3,4) by (simp add: reads_ownKeys)
  have "\<exists>kvs'. cellAt h1 a = CObj kvs' \<and> map fst kvs' = map fst kvs"
    using M tn(3) tr tn(5,2) c w(1) by (rule walkKeys_fields)
  then obtain kvs1 where k1: "cellAt h1 a = CObj kvs1" "map fst kvs1 = map fst kvs" by blast
  have l1: "a < length h1"
    using walkKeys_frames_Inr [OF M tn(3) tr tn(5,2) w(1)] tn(2)
    by (simp add: frames_def)
  show ?thesis
  proof (cases r)
    case False
    have "set (map fst kvs1) \<subseteq> set (map fst kvs)" using k1(2) by simp
    then show ?thesis using False w(2) k1 by (auto simp del: set_map)
  next
    case True
    then have "res = (Ref a, h1[a := CObj (filter (\<lambda>kv. snd kv \<noteq> Unres) kvs1)])"
      using w(2) k1(1) by (simp add: cleanUpLinks_def)
    moreover have "set (map fst (filter (\<lambda>kv. snd kv \<noteq> Unres) kvs1)) \<subseteq> set (map fst kvs)"
      using k1(2) [symmetric] by auto
    ultimately show ?thesis using True l1 by (simp add: cellAt_def)
  qed
qed

lemma objectAssign_others:
  assumes "t \<noteq> s" "cellAt h s = CObj skvs" "cellAt h t = CObj tkvs" "t < length h"
    "set (map fst skvs) \<subseteq> set (map fst tkvs)"
  shows "\<exists>kvs. cellAt (objectAssign h (Ref t) (Ref s)) t = CObj kvs \<and> map fst kvs = map fst tkvs \<and>
           (\<forall>k. k \<notin> set (map fst skvs) \<longrightarrow> map_of kvs k = map_of tkvs k)"
proof -
  let ?f = "\<lambda>k h'. case readKey (cellAt h' s) k of Some v \<Rightarrow> store h' t (asName k) v | None \<Rightarrow> h'"
  have step: "\<exists>kvs. cellAt (fold ?f ks g) t = CObj kvs \<and> map fst kvs = map fst gkvs \<and>
           (\<forall>k. k \<notin> set (map fst skvs) \<longrightarrow> map_of kvs k = map_of gkvs k)"
    if "cellAt g s = CObj skvs" "cellAt g t = CObj gkvs" "t < length g"
      "\<forall>q \<in> set ks. \<exists>n. q = Name n \<and> n \<in> set (map fst gkvs) \<and> n \<in> set (map fst skvs)"
    for ks g gkvs
    using that
  proof (induction ks arbitrary: g gkvs)
    case Nil
    then show ?case by simp
  next
    case (Cons q ks)
    obtain n where q: "q = Name n" "n \<in> set (map fst gkvs)" "n \<in> set (map fst skvs)"
      using Cons.prems(4) by auto
    obtain v where v: "map_of skvs n = Some v"
      using q(3) by (cases "map_of skvs n") (auto simp: map_of_eq_None_iff)
    let ?g = "store g t (Name n) v"
    have g: "?f q g = ?g" using v Cons.prems(1) q by (simp add: asName_def)
    have ct: "cellAt ?g t = CObj (AList.update n v gkvs)"
      using Cons.prems(2,3) by (simp add: cellAt_store)
    have mk: "map fst (AList.update n v gkvs) = map fst gkvs" using q(2) by (simp add: update_keys)
    have "cellAt ?g s = cellAt g s" using assms(1) by (simp add: cellAt_def store_def)
    then have cs: "cellAt ?g s = CObj skvs" using Cons.prems(1) by simp
    have lg: "t < length ?g" using Cons.prems(3) by (simp add: store_def)
    have ks: "\<forall>q \<in> set ks. \<exists>n'. q = Name n' \<and> n' \<in> set (map fst (AList.update n v gkvs)) \<and>
        n' \<in> set (map fst skvs)"
      using Cons.prems(4) unfolding mk by simp
    have "\<exists>kvs. cellAt (fold ?f ks ?g) t = CObj kvs \<and> map fst kvs = map fst (AList.update n v gkvs) \<and>
           (\<forall>k. k \<notin> set (map fst skvs) \<longrightarrow> map_of kvs k = map_of (AList.update n v gkvs) k)"
      using cs ct lg ks by (rule Cons.IH)
    then obtain kvs where r: "cellAt (fold ?f ks ?g) t = CObj kvs" "map fst kvs = map fst gkvs"
        "\<forall>k. k \<notin> set (map fst skvs) \<longrightarrow> map_of kvs k = map_of (AList.update n v gkvs) k"
      unfolding mk by blast
    have "map_of kvs k = map_of gkvs k" if "k \<notin> set (map fst skvs)" for k
    proof -
      have "k \<noteq> n" using that q(3) by auto
      then show ?thesis using r(3) that by (simp add: update_conv')
    qed
    then show ?case using r(1,2) g by simp
  qed
  have "\<forall>q \<in> set (ownKeys (cellAt h s)). \<exists>n. q = Name n \<and> n \<in> set (map fst tkvs) \<and> n \<in> set (map fst skvs)"
    using assms(2,5) by auto
  then show ?thesis
    using step [of h tkvs "ownKeys (cellAt h s)"] assms(2,3,4) by (simp add: objectAssign_def)
qed

lemma entry_object_apart:
  assumes t: "tree d h (Ref a) A"
  shows "\<exists>B. tree d (h @ [entryCell h (Ref a) eps (CObj [])]) (Ref (length h)) (insert (length h) B) \<and>
           B \<subseteq> A - {a} \<and>
           (\<forall>k x e Ax. k \<notin> set eps \<longrightarrow> readKey (cellAt h a) (Name k) = Some x \<longrightarrow> tree e h x Ax \<longrightarrow>
              Ax \<inter> B = {})"
proof -
  let ?L = "length h"
  let ?h1 = "h @ [entryCell h (Ref a) eps (CObj [])]"
  obtain B where B: "tree d ?h1 (Ref ?L) (insert ?L B)" "B \<subseteq> A - {a}"
    using entry_object_tree [OF t] by blast
  from t obtain e0 C where tn: "d = Suc e0" "a < length h" "distinct (ownKeys (cellAt h a))"
      "trees e0 h (cellValues (cellAt h a)) C" "a \<notin> C" "A = insert a C"
    by (auto elim: tree_RefE)
  have LB: "?L \<notin> B" using B(2) tree_bound(1) [OF t] by auto
  from B(1) obtain B' where B': "trees e0 ?h1 (cellValues (cellAt ?h1 ?L)) B'" "?L \<notin> B'"
      "insert ?L B = insert ?L B'"
    unfolding tn(1) by (auto elim: tree_RefE)
  have BB: "B' = B" using B'(2,3) LB by (auto simp: insert_eq_iff)
  obtain ekvs where ek: "entryCell h (Ref a) eps (CObj []) = CObj ekvs" "distinct (map fst ekvs)"
    using entryCell_fields [of "[]" h a eps] by auto
  have look: "map_of ekvs q = (if q \<in> set eps \<and> readKey (cellAt h a) (Name q) \<noteq> None
          then readKey (cellAt h a) (Name q) else None)" for q
    using entryCell_lookup [of h a eps "[]" q] ek(1) by auto
  have cL: "cellAt ?h1 ?L = CObj ekvs" using ek(1) by (simp add: cellAt_def)
  have f1: "frames h {} ?h1" by (rule frames_append)
  have "Ax \<inter> B = {}" if k: "k \<notin> set eps" "readKey (cellAt h a) (Name k) = Some x" "tree e h x Ax"
    for k x e Ax
  proof (rule ccontr)
    assume "Ax \<inter> B \<noteq> {}"
    then obtain b where b: "b \<in> Ax" "b \<in> B" by blast
    obtain w A' where w: "w \<in> set (cellValues (cellAt ?h1 ?L))" "tree e0 ?h1 w A'" "b \<in> A'"
      using trees_covered [OF B'(1)] b(2) BB by blast
    then obtain k' where k': "(k', w) \<in> set ekvs" using cL by auto
    then have "map_of ekvs k' = Some w" using ek(2) by simp
    then have kw: "k' \<in> set eps" "readKey (cellAt h a) (Name k') = Some w"
      using look [of k'] by (auto split: if_splits)
    obtain A2 where A2: "tree e0 h w A2" using tree_child [OF t kw(2)] tn(1) by auto
    have "tree e0 ?h1 w A2" using f1 A2 by (rule tree_frames(1)) simp
    then have "A' = A2" using w(2) by (rule tree_unique(1))
    then have bw: "b \<in> A2" using w(3) by simp
    obtain Ax2 where Ax2: "tree e0 h x Ax2" using tree_child [OF t k(2)] tn(1) by auto
    have "Ax2 = Ax" using k(3) Ax2 by (rule tree_unique(1))
    then have bx: "b \<in> Ax2" using b(1) by simp
    have mem: "x \<in> set (cellValues (cellAt h a))" "w \<in> set (cellValues (cellAt h a))"
      using k(2) kw(2) readKey_in_values by blast+
    have "w \<noteq> x"
    proof
      assume e: "w = x"
      have "isRef w" using A2 bw tree_leaf_iff [of w e0 h A2] by auto
      obtain kvs where c: "cellAt h a = CObj kvs" using k(2) by (cases "cellAt h a") auto
      have "(k, w) \<in> set kvs" "(k', w) \<in> set kvs"
        using k(2) kw(2) c e by (auto dest: map_of_SomeD)
      moreover have "distinct (filter isRef (map snd kvs))"
        using trees_refs_once [OF tn(4)] c by simp
      ultimately have "k' = k" using \<open>isRef w\<close> by (intro refs_once_keys [of kvs k w k'])
      then show False using k(1) kw(1) by simp
    qed
    then have "Ax2 \<inter> A2 = {}" using trees_apart [OF tn(4) mem(1,2) _ Ax2 A2] by blast
    then show False using bx bw by blast
  qed
  then show ?thesis using B by blast
qed

lemma entry_object_not_link:
  assumes t: "tree d h (Ref a) A" and nl: "\<not> isAnyLink h (Ref a)"
  shows "\<not> isAnyLink (h @ [entryCell h (Ref a) eps (CObj [])]) (Ref (length h))"
proof -
  let ?L = "length h"
  let ?h1 = "h @ [entryCell h (Ref a) eps (CObj [])]"
  obtain ekvs where ek: "entryCell h (Ref a) eps (CObj []) = CObj ekvs"
    using entryCell_lookup [of h a eps "[]"] by blast
  have look: "map_of ekvs q = (if q \<in> set eps \<and> readKey (cellAt h a) (Name q) \<noteq> None
          then readKey (cellAt h a) (Name q) else None)" for q
    using entryCell_lookup [of h a eps "[]" q] ek by auto
  have cL: "cellAt ?h1 ?L = CObj ekvs" using ek by (simp add: cellAt_def)
  have f1: "frames h {} ?h1" by (rule frames_append)
  have sys: "optp ?h1 (Ref ?L) ''sys'' = Undef \<or> optp ?h1 (Ref ?L) ''sys'' = optp h (Ref a) ''sys''"
    using cL look [of "''sys''"] by (auto simp: optp_def readAt_def split: option.splits)
  obtain ds As where ts: "tree ds h (optp h (Ref a) ''sys'') As" using tree_optp [OF t] by blast
  have "optp ?h1 (optp h (Ref a) ''sys'') ''type'' = optp h (optp h (Ref a) ''sys'') ''type''"
    using ts f1 by (rule optp_frames) simp
  then have "optp ?h1 (optp ?h1 (Ref ?L) ''sys'') ''type'' = Undef \<or>
      optp ?h1 (optp ?h1 (Ref ?L) ''sys'') ''type'' = optp h (optp h (Ref a) ''sys'') ''type''"
    using sys by (auto simp: optp_def readAt_def)
  then show ?thesis
    using nl by (auto simp: isAnyLink_def isLink_def isResourceLink_def)
qed

lemma resolveItem_kept:
  assumes t: "tree d h (Ref a) A" and c: "cellAt h a = CObj kvs" and nl: "\<not> isAnyLink h (Ref a)"
    and o: "itemEntryPoints opts = None \<longrightarrow> \<not> removeUnresolved opts"
    and run: "resolveItem S fuel opts m h (Ref a) = Inr h'"
  shows "\<exists>kvs'. cellAt h' a = CObj kvs' \<and> map fst kvs' = map fst kvs \<and>
     (\<forall>eps k x e Ax. itemEntryPoints opts = Some eps \<longrightarrow> k \<notin> set eps \<longrightarrow> map_of kvs k = Some x \<longrightarrow>
        tree e h x Ax \<longrightarrow> map_of kvs' k = Some x \<and> (\<forall>b \<in> Ax. h' ! b = h ! b))"
proof (cases "itemEntryPoints opts")
  case None
  from run None obtain res where w: "walkMutate fuel isAnyLink (normalizeLink S m (removeUnresolved opts))
      (removeUnresolved opts) h (Ref a) = Inr res" "h' = objectAssign (snd res) (Ref a) (fst res)"
    by (auto simp: resolveItem_def makeEntryObject_def bnd_eq_Inr)
  have "fst res = Ref a \<and>
     (\<exists>kvs'. cellAt (snd res) a = CObj kvs' \<and> set (map fst kvs') \<subseteq> set (map fst kvs) \<and>
        (\<not> removeUnresolved opts \<longrightarrow> map fst kvs' = map fst kvs))"
    using normalizeLink_no_RangeError t c nl w(1) by (rule walkMutate_fields)
  then show ?thesis using w(2) o None by (auto simp: objectAssign_self)
next
  case (Some es)
  let ?L = "length h"
  let ?h1 = "h @ [entryCell h (Ref a) es (CObj [])]"
  obtain B where B: "tree d ?h1 (Ref ?L) (insert ?L B)" "B \<subseteq> A - {a}"
      "\<forall>k x e Ax. k \<notin> set es \<longrightarrow> readKey (cellAt h a) (Name k) = Some x \<longrightarrow> tree e h x Ax \<longrightarrow>
          Ax \<inter> B = {}"
    using entry_object_apart [OF t, of es] by blast
  have a: "a \<in> A" "a < length h" using t by (auto elim: tree_RefE)
  obtain ekvs where ek: "entryCell h (Ref a) es (CObj []) = CObj ekvs"
    using entryCell_lookup [of h a es "[]"] by blast
  have look: "map_of ekvs q = (if q \<in> set es \<and> readKey (cellAt h a) (Name q) \<noteq> None
          then readKey (cellAt h a) (Name q) else None)" for q
    using entryCell_lookup [of h a es "[]" q] ek by auto
  have cL: "cellAt ?h1 ?L = CObj ekvs" using ek by (simp add: cellAt_def)
  have eks: "q \<in> set es \<and> q \<in> set (map fst kvs)" if "q \<in> set (map fst ekvs)" for q
  proof -
    from that have "map_of ekvs q \<noteq> None" by (simp add: map_of_eq_None_iff)
    then have "q \<in> set es" "map_of kvs q \<noteq> None" using look [of q] c by (auto split: if_splits)
    then show ?thesis by (simp add: map_of_eq_None_iff)
  qed
  have nL: "\<not> isAnyLink ?h1 (Ref ?L)" using t nl by (rule entry_object_not_link)
  from run Some obtain res where w: "walkMutate fuel isAnyLink (normalizeLink S m (removeUnresolved opts))
      (removeUnresolved opts) ?h1 (Ref ?L) = Inr res" "h' = objectAssign (snd res) (Ref a) (fst res)"
    by (auto simp: resolveItem_def makeEntryObject_Some bnd_eq_Inr)
  have "fst res = Ref ?L \<and>
     (\<exists>kvs'. cellAt (snd res) ?L = CObj kvs' \<and> set (map fst kvs') \<subseteq> set (map fst ekvs) \<and>
        (\<not> removeUnresolved opts \<longrightarrow> map fst kvs' = map fst ekvs))"
    using normalizeLink_no_RangeError B(1) cL nL w(1) by (rule walkMutate_fields)
  then obtain rkvs where r: "fst res = Ref ?L" "cellAt (snd res) ?L = CObj rkvs"
      "set (map fst rkvs) \<subseteq> set (map fst ekvs)" by blast
  have f2: "frames ?h1 (insert ?L B) (snd res)"
    using normalizeLink_no_RangeError B(1) w(1) by (rule walkMutate_frames_Inr)
  have "cellAt (snd res) a = cellAt ?h1 a"
    using f2 by (rule cellAt_frames) (use a(2) B(2) in auto)
  then have ca: "cellAt (snd res) a = CObj kvs" using c a(2) by (simp add: cellAt_def nth_append)
  have la: "a < length (snd res)" using f2 a(2) by (simp add: frames_def)
  have sub: "set (map fst rkvs) \<subseteq> set (map fst kvs)" using r(3) eks by blast
  have aL: "a \<noteq> ?L" using a(2) by simp
  have "\<exists>kvs'. cellAt (objectAssign (snd res) (Ref a) (Ref ?L)) a = CObj kvs' \<and>
      map fst kvs' = map fst kvs \<and> (\<forall>k. k \<notin> set (map fst rkvs) \<longrightarrow> map_of kvs' k = map_of kvs k)"
    using aL r(2) ca la sub by (rule objectAssign_others)
  then obtain fkvs where fk: "cellAt h' a = CObj fkvs" "map fst fkvs = map fst kvs"
      "\<forall>k. k \<notin> set (map fst rkvs) \<longrightarrow> map_of fkvs k = map_of kvs k"
    unfolding w(2) r(1) by blast
  have f3: "frames (snd res) {a} h'" unfolding w(2) by (rule frames_objectAssign)
  have "map_of fkvs k = Some x \<and> (\<forall>b \<in> Ax. h' ! b = h ! b)"
    if k: "k \<notin> set es" "map_of kvs k = Some x" "tree e h x Ax" for k x e Ax
  proof
    have "k \<notin> set (map fst rkvs)" using k(1) r(3) eks by blast
    then show "map_of fkvs k = Some x" using fk(3) k(2) by simp
    have rk: "readKey (cellAt h a) (Name k) = Some x" using c k(2) by simp
    have d: "Ax \<inter> B = {}" using B(3) k(1) rk k(3) by blast
    obtain e' A' where "tree e' h x A'" "A' \<subseteq> A - {a}" using tree_child [OF t rk] by blast
    then have s: "Ax \<subseteq> A - {a}" using tree_unique(1) [OF k(3)] by blast
    show "\<forall>b \<in> Ax. h' ! b = h ! b"
    proof
      fix b assume b: "b \<in> Ax"
      have bl: "b < length h" using tree_bound(1) [OF k(3)] b by simp
      then have "b < length ?h1" "b \<notin> insert ?L B" using d b by auto
      then have 1: "snd res ! b = ?h1 ! b" using f2 by (simp add: frames_def)
      have "b < length (snd res)" "b \<notin> {a}" using f2 bl s b by (auto simp: frames_def)
      then have "h' ! b = snd res ! b" using f3 by (simp add: frames_def)
      then show "h' ! b = h ! b" using 1 bl by (simp add: nth_append)
    qed
  qed
  then show ?thesis using fk(1,2) Some by auto
qed

lemma field_tree_inside:
  assumes "tree d h (Ref a) A" "cellAt h a = CObj kvs" "map_of kvs k = Some x" "tree e h x Ax"
  shows "Ax \<subseteq> A - {a}"
proof -
  have rk: "readKey (cellAt h a) (Name k) = Some x" using assms(2,3) by simp
  obtain e' A' where "tree e' h x A'" "A' \<subseteq> A - {a}" using tree_child [OF assms(1) rk] by blast
  then show ?thesis using tree_unique(1) [OF assms(4)] by blast
qed

lemma resolveAll_kept:
  assumes o: "itemEntryPoints opts = None \<longrightarrow> \<not> removeUnresolved opts"
  shows "trees d h es B \<Longrightarrow> \<forall>e \<in> set es. isRef e \<Longrightarrow> tree d h (Ref a) A \<Longrightarrow>
     Ref a \<in> set es \<or> A \<inter> B = {} \<Longrightarrow> cellAt h a = CObj kvs \<Longrightarrow> \<not> isAnyLink h (Ref a) \<Longrightarrow>
     resolveAll S fuel opts m h es = Inr h' \<Longrightarrow>
     \<exists>kvs'. cellAt h' a = CObj kvs' \<and> map fst kvs' = map fst kvs \<and>
       (\<forall>eps k x e Ax. itemEntryPoints opts = Some eps \<longrightarrow> k \<notin> set eps \<longrightarrow> map_of kvs k = Some x \<longrightarrow>
          tree e h x Ax \<longrightarrow> map_of kvs' k = Some x \<and> (\<forall>b \<in> Ax. h' ! b = h ! b))"
proof (induction es arbitrary: h B)
  case Nil
  then show ?case by simp
next
  case (Cons e es)
  from Cons.prems(1) obtain A1 B1 where t: "tree d h e A1" "trees d h es B1" "A1 \<inter> B1 = {}"
      "B = A1 \<union> B1" by (auto elim: trees_ConsE)
  obtain a1 where a1: "e = Ref a1" using Cons.prems(2) isRef_Ref [of e] by auto
  from Cons.prems(7) obtain h1 where run: "resolveItem S fuel opts m h (Ref a1) = Inr h1"
      "resolveAll S fuel opts m h1 es = Inr h'"
    unfolding a1 by (auto simp: bnd_eq_Inr)
  have f1: "frames h A1 h1" using t(1) run(1) unfolding a1 by (rule resolveItem_frames_Inr)
  have ts1: "trees d h1 es B1" using f1 t(2) by (rule tree_frames(2)) (use t(3) in auto)
  have refs: "\<forall>e \<in> set es. isRef e" using Cons.prems(2) by simp
  have al: "a < length h" "a \<in> A" using Cons.prems(3) by (auto elim: tree_RefE)
  show ?case
  proof (cases "a1 = a")
    case True
    have AA: "A1 = A" using Cons.prems(3) t(1) unfolding a1 True by (rule tree_unique(1))
    obtain kvs1 where k1: "cellAt h1 a = CObj kvs1" "map fst kvs1 = map fst kvs"
        "\<forall>eps k x e Ax. itemEntryPoints opts = Some eps \<longrightarrow> k \<notin> set eps \<longrightarrow> map_of kvs k = Some x \<longrightarrow>
          tree e h x Ax \<longrightarrow> map_of kvs1 k = Some x \<and> (\<forall>b \<in> Ax. h1 ! b = h ! b)"
      using resolveItem_kept [OF Cons.prems(3,5,6) o run(1) [unfolded True]] by blast
    have f2: "frames h1 B1 h'" using ts1 refs run(2) by (rule resolveAll_frames_Inr)
    have l1: "length h \<le> length h1" using f1 by (simp add: frames_def)
    have "cellAt h' a = cellAt h1 a"
      using f2 by (rule cellAt_frames) (use al l1 t(3) AA in auto)
    then have c': "cellAt h' a = CObj kvs1" using k1(1) by simp
    have "map_of kvs1 k = Some x \<and> (\<forall>b \<in> Ax. h' ! b = h ! b)"
      if k: "itemEntryPoints opts = Some eps" "k \<notin> set eps" "map_of kvs k = Some x" "tree e h x Ax"
      for eps k x e Ax
    proof
      have 1: "map_of kvs1 k = Some x \<and> (\<forall>b \<in> Ax. h1 ! b = h ! b)" using k1(3) k by blast
      then show "map_of kvs1 k = Some x" by simp
      have s: "Ax \<subseteq> A - {a}" using Cons.prems(3,5) k(3,4) by (rule field_tree_inside)
      show "\<forall>b \<in> Ax. h' ! b = h ! b"
      proof
        fix b assume b: "b \<in> Ax"
        have "b < length h1" "b \<notin> B1" using tree_bound(1) [OF k(4)] b l1 s t(3) AA by auto
        then have "h' ! b = h1 ! b" using f2 by (simp add: frames_def)
        then show "h' ! b = h ! b" using 1 b by simp
      qed
    qed
    then show ?thesis using c' k1(2) by blast
  next
    case False
    have d: "A \<inter> A1 = {}"
    proof (cases "Ref a \<in> set es")
      case True
      then obtain A' where "tree d h (Ref a) A'" "A' \<subseteq> B1" using trees_member [OF t(2)] by blast
      then have "A \<subseteq> B1" using tree_unique(1) [OF Cons.prems(3)] by blast
      then show ?thesis using t(3) by blast
    next
      case F: False
      then have "A \<inter> B = {}" using Cons.prems(4) False a1 by simp
      then show ?thesis using t(4) by blast
    qed
    have t1: "tree d h1 (Ref a) A" using f1 Cons.prems(3) by (rule tree_frames(1)) (rule d)
    have m1: "Ref a \<in> set es \<or> A \<inter> B1 = {}" using Cons.prems(4) False a1 t(4) by auto
    have "cellAt h1 a = cellAt h a" using f1 al(1) by (rule cellAt_frames) (use d al(2) in auto)
    then have c1: "cellAt h1 a = CObj kvs" using Cons.prems(5) by simp
    have n1: "\<not> isAnyLink h1 (Ref a)"
      using isAnyLink_frames(1) [OF Cons.prems(3) f1 d] Cons.prems(6) by simp
    obtain kvs' where k': "cellAt h' a = CObj kvs'" "map fst kvs' = map fst kvs"
        "\<forall>eps k x e Ax. itemEntryPoints opts = Some eps \<longrightarrow> k \<notin> set eps \<longrightarrow> map_of kvs k = Some x \<longrightarrow>
          tree e h1 x Ax \<longrightarrow> map_of kvs' k = Some x \<and> (\<forall>b \<in> Ax. h' ! b = h1 ! b)"
      using Cons.IH [OF ts1 refs t1 m1 c1 n1 run(2)] by blast
    have "map_of kvs' k = Some x \<and> (\<forall>b \<in> Ax. h' ! b = h ! b)"
      if k: "itemEntryPoints opts = Some eps" "k \<notin> set eps" "map_of kvs k = Some x" "tree e h x Ax"
      for eps k x e Ax
    proof -
      have s: "Ax \<subseteq> A - {a}" using Cons.prems(3,5) k(3,4) by (rule field_tree_inside)
      have "tree e h1 x Ax" using f1 k(4) by (rule tree_frames(1)) (use s d in auto)
      then have 1: "map_of kvs' k = Some x \<and> (\<forall>b \<in> Ax. h' ! b = h1 ! b)" using k'(3) k by blast
      have "h1 ! b = h ! b" if "b \<in> Ax" for b
      proof -
        have "b < length h" "b \<notin> A1" using tree_bound(1) [OF k(4)] that s d by auto
        then show ?thesis using f1 by (simp add: frames_def)
      qed
      then show ?thesis using 1 by simp
    qed
    then show ?thesis using k'(1,2) by blast
  qed
qed

lemma representsFields_keys: "representsFields h kvs fs \<Longrightarrow> map fst kvs = map fst fs"
  by (induction fs arbitrary: kvs) (auto split: list.splits)

lemma trees_filter_apart:
  assumes "trees d h vs B" "v \<in> set vs" "tree d h v A" "trees d h (filter p vs) C" "\<not> p v"
  shows "A \<inter> C = {}"
proof (rule ccontr)
  assume "A \<inter> C \<noteq> {}"
  then obtain b where b: "b \<in> A" "b \<in> C" by blast
  obtain w A' where w: "w \<in> set (filter p vs)" "tree d h w A'" "b \<in> A'"
    using trees_covered [OF assms(4) b(2)] by blast
  have "w \<in> set vs" "w \<noteq> v" using w(1) assms(5) by auto
  then have "A \<inter> A' = {}" using trees_apart [OF assms(1,2) _ _ assms(3) w(2)] by blast
  then show False using b(1) w(3) by blast
qed

lemma fields_kept:
  assumes wf: "wellFormedResponse resp" and its: "items resp = Some its"
    and c: "copied resp = (ivs, incs, h)"
    and i: "i < length its" and obj: "its ! i = JObj fs"
    and nl: "\<not> isAnyLink h (ivs ! i)"
    and o: "itemEntryPoints opts = None \<longrightarrow> \<not> removeUnresolved opts"
    and run: "resolveResponse S fuel resp opts = Inr (out, h')"
  shows "out = ivs \<and>
     (\<exists>a kvs. out ! i = Ref a \<and> cellAt h' a = CObj kvs \<and> map fst kvs = map fst fs \<and>
        (\<forall>eps k x. itemEntryPoints opts = Some eps \<longrightarrow> k \<notin> set eps \<longrightarrow> map_of fs k = Some x \<longrightarrow>
           (\<exists>v. map_of kvs k = Some v \<and> represents h' v x)))"
proof -
  let ?d = "responseDepth resp"
  obtain B where B: "trees ?d h (ivs @ concat incs) B" "representsList h ivs its"
    using copied_shape [OF wf its c] by blast
  have n: "length ivs = length its" "represents h (ivs ! i) (its ! i)"
    using representsList_nth [OF B(2)] i by auto
  from n(2) obtain a kvs where a: "ivs ! i = Ref a" "a < length h" "h ! a = CObj kvs"
      "representsFields h kvs fs"
    unfolding obj by (auto split: jv.splits cell.splits)
  have ca: "cellAt h a = CObj kvs" using a(2,3) by (simp add: cellAt_def)
  have mem: "Ref a \<in> set (ivs @ concat incs)" using i n(1) a(1) by (metis nth_mem set_append UnI1)
  obtain A where A: "tree ?d h (Ref a) A" using trees_member [OF B(1) mem] by blast
  from run have rs: "resolveStore S fuel opts h ivs incs = Inr (out, h')"
    using resolveResponse_copied [OF its c] by simp
  then obtain es pairs where k: "keepEntities h (ivs @ concat incs) = Inr es"
      "entityPairs S h es = Inr pairs" "resolveAll S fuel opts (newMap pairs) h es = Inr h'" "out = ivs"
    by (auto simp: resolveStore_def bnd_eq_Inr)
  have es: "es = filter (\<lambda>e. truthy (optp h e ''sys'')) (ivs @ concat incs)"
    using k(1) by (rule keepEntities_filter)
  obtain C where C: "trees ?d h es C" unfolding es using trees_filter [OF B(1)] by blast
  have "\<forall>e \<in> set es. truthy (optp h e ''sys'')" unfolding es by (simp only: set_filter) blast
  then have r: "\<forall>e \<in> set es. isRef e" using truthy_sys_isRef by blast
  have m: "Ref a \<in> set es \<or> A \<inter> C = {}"
  proof (cases "truthy (optp h (Ref a) ''sys'')")
    case True
    then show ?thesis unfolding es using mem by simp
  next
    case False
    have "A \<inter> C = {}" using B(1) mem A C [unfolded es] False by (rule trees_filter_apart)
    then show ?thesis by simp
  qed
  obtain kvs' where k': "cellAt h' a = CObj kvs'" "map fst kvs' = map fst kvs"
      "\<forall>eps k x e Ax. itemEntryPoints opts = Some eps \<longrightarrow> k \<notin> set eps \<longrightarrow> map_of kvs k = Some x \<longrightarrow>
          tree e h x Ax \<longrightarrow> map_of kvs' k = Some x \<and> (\<forall>b \<in> Ax. h' ! b = h ! b)"
    using resolveAll_kept [OF o C r A m ca nl [unfolded a(1)] k(3)] by blast
  have len: "length h \<le> length h'"
    using resolveAll_frames_Inr [OF C r k(3)] by (simp add: frames_def)
  have "\<exists>v. map_of kvs' k = Some v \<and> represents h' v x"
    if q: "itemEntryPoints opts = Some eps" "k \<notin> set eps" "map_of fs k = Some x" for eps k x
  proof -
    obtain v where v: "map_of kvs k = Some v" "represents h v x"
      using representsFields_map_of [OF a(4), of k] q(3) by auto
    have rk: "readKey (cellAt h a) (Name k) = Some v" using ca v(1) by simp
    obtain e Ax where t: "tree e h v Ax" using tree_child [OF A rk] by blast
    have 1: "map_of kvs' k = Some v" "\<forall>b \<in> Ax. h' ! b = h ! b" using k'(3) q(1,2) v(1) t by blast+
    have "frames h (- Ax) h'" using len 1(2) by (simp add: frames_def)
    then have "represents h' v x" using t v(2) by (intro represents_frames [of e h v Ax x "- Ax" h']) auto
    then show ?thesis using 1(1) by blast
  qed
  then show ?thesis using k(4) a(1) k'(1,2) representsFields_keys [OF a(4)] by auto
qed

lemma linkAt_unresolved:
  assumes "linkAt h v [] K" "m K = None"
  shows "normalizeLink S m True h v = Inr Unres"
proof -
  from assms(1) obtain t i where l: "isLink h v" "optp h (optp h v ''sys'') ''linkType'' = Str t"
      "optp h (optp h v ''sys'') ''id'' = Str i" "K = t @ ''!'' @ i"
    by (auto split: jv.splits)
  have "getResolvedLink S h m v = Inr (orUnresolved (m K))"
    using getResolvedLink_direct [OF l(1), of S m] l(2,3,4) by (simp add: globalKey_def)
  then show ?thesis using assms(2) by (simp add: normalizeLink_def orUnresolved_def)
qed

lemma map_of_filter_dropped:
  "distinct (map fst kvs) \<Longrightarrow> map_of kvs k = Some x \<Longrightarrow> \<not> Q x \<Longrightarrow>
     map_of (filter (\<lambda>kv. Q (snd kv)) kvs) k = None"
proof (induction kvs)
  case (Cons kv kvs)
  show ?case
  proof (cases "fst kv = k")
    case True
    then have "k \<notin> fst ` set kvs" using Cons.prems(1) by auto
    then have "k \<notin> fst ` set (filter (\<lambda>kv. Q (snd kv)) kvs)" by auto
    then have "map_of (filter (\<lambda>kv. Q (snd kv)) kvs) k = None" by (simp add: map_of_eq_None_iff)
    moreover have "snd kv = x" using True Cons.prems(2) by (cases kv) simp
    ultimately show ?thesis using Cons.prems(3) True by simp
  next
    case False
    then show ?thesis using Cons by (cases kv) auto
  qed
qed simp

lemma objectAssign_superset:
  assumes "cellAt h t = CObj tkvs" "t < length h"
  shows "\<exists>kvs. cellAt (objectAssign h (Ref t) s) t = CObj kvs \<and> set (map fst tkvs) \<subseteq> set (map fst kvs)"
proof (cases s)
  case (Ref sa)
  let ?f = "\<lambda>k h'. case readKey (cellAt h' sa) k of Some v \<Rightarrow> store h' t (asName k) v | None \<Rightarrow> h'"
  have step: "\<exists>kvs. cellAt (fold ?f ks g) t = CObj kvs \<and> set (map fst gkvs) \<subseteq> set (map fst kvs)"
    if "cellAt g t = CObj gkvs" "t < length g" for ks g gkvs
    using that
  proof (induction ks arbitrary: g gkvs)
    case Nil
    then show ?case by simp
  next
    case (Cons q ks)
    show ?case
    proof (cases "readKey (cellAt g sa) q")
      case None
      then show ?thesis using Cons by simp
    next
      case (Some v)
      obtain n where n: "asName q = Name n" by (cases q) (simp_all add: asName_def)
      let ?g = "store g t (Name n) v"
      have g: "?f q g = ?g" using Some n by simp
      have ct: "cellAt ?g t = CObj (AList.update n v gkvs)"
        using Cons.prems by (simp add: cellAt_store)
      have lg: "t < length ?g" using Cons.prems(2) by (simp add: store_def)
      obtain kvs where k: "cellAt (fold ?f ks ?g) t = CObj kvs"
          "set (map fst (AList.update n v gkvs)) \<subseteq> set (map fst kvs)"
        using Cons.IH [OF ct lg] by blast
      have "set (map fst gkvs) \<subseteq> set (map fst (AList.update n v gkvs))"
        by (auto simp: update_keys)
      then show ?thesis using k g by auto
    qed
  qed
  show ?thesis using step [OF assms, of "ownKeys (cellAt h sa)"] Ref by (simp add: objectAssign_def)
qed (use assms in \<open>simp_all add: objectAssign_def\<close>)

lemma resolveAll_at:
  "trees d h es B \<Longrightarrow> \<forall>e \<in> set es. isRef e \<Longrightarrow> Ref a \<in> set es \<Longrightarrow> tree d h (Ref a) A \<Longrightarrow>
     resolveAll S fuel opts m h es = Inr h' \<Longrightarrow>
     \<exists>h0 h1. frames h (- A) h0 \<and> resolveItem S fuel opts m h0 (Ref a) = Inr h1 \<and> frames h1 (- A) h'"
proof (induction es arbitrary: h B)
  case Nil
  then show ?case by simp
next
  case (Cons e es)
  from Cons.prems(1) obtain A1 B1 where t: "tree d h e A1" "trees d h es B1" "A1 \<inter> B1 = {}"
    by (auto elim: trees_ConsE)
  obtain a1 where a1: "e = Ref a1" using Cons.prems(2) by (cases e) simp_all
  from Cons.prems(5) obtain h1 where run: "resolveItem S fuel opts m h e = Inr h1"
      "resolveAll S fuel opts m h1 es = Inr h'" by (auto simp: bnd_eq_Inr)
  have f1: "frames h A1 h1" using t(1) run(1) unfolding a1 by (rule resolveItem_frames_Inr)
  have t1: "trees d h1 es B1" using f1 t(2) by (rule tree_frames(2)) (use t(3) in auto)
  have r1: "\<forall>e \<in> set es. isRef e" using Cons.prems(2) by simp
  show ?case
  proof (cases "e = Ref a")
    case True
    have AA: "A1 = A" using Cons.prems(4) t(1) unfolding True by (rule tree_unique(1))
    have "frames h1 B1 h'" using t1 r1 run(2) by (rule resolveAll_frames_Inr)
    then have "frames h1 (- A) h'" by (rule frames_mono) (use t(3) AA in auto)
    then show ?thesis using run(1) True by (intro exI [of _ h] exI [of _ h1]) simp
  next
    case False
    then have m: "Ref a \<in> set es" using Cons.prems(3) by simp
    obtain Aa where aa: "tree d h (Ref a) Aa" "Aa \<subseteq> B1" using trees_member [OF t(2) m] by blast
    have AA: "Aa = A" using Cons.prems(4) aa(1) by (rule tree_unique(1))
    have d: "A \<inter> A1 = {}" using aa(2) t(3) AA by auto
    have ta: "tree d h1 (Ref a) A" using f1 Cons.prems(4) by (rule tree_frames(1)) (rule d)
    obtain h0 h2 where r: "frames h1 (- A) h0" "resolveItem S fuel opts m h0 (Ref a) = Inr h2"
        "frames h2 (- A) h'"
      using Cons.IH [OF t1 r1 m ta run(2)] by blast
    have "frames h (- A) h0" using f1 r(1) by (rule frames_trans) (use d in auto)
    then show ?thesis using r(2,3) by blast
  qed
qed

lemma walkMutate_link:
  "P h v \<Longrightarrow> walkMutate n P M r h v = Inr res \<Longrightarrow> snd res = h"
  by (cases n) (auto simp: bnd_eq_Inr)

lemma resolveItem_keys:
  assumes t: "tree d h (Ref a) A" and c: "cellAt h a = CObj kvs"
    and o: "itemEntryPoints opts = None \<longrightarrow> \<not> removeUnresolved opts"
    and run: "resolveItem S fuel opts m h (Ref a) = Inr h'"
  shows "\<exists>kvs'. cellAt h' a = CObj kvs' \<and> set (map fst kvs) \<subseteq> set (map fst kvs')"
proof -
  let ?M = "normalizeLink S m (removeUnresolved opts)"
  have a: "a \<in> A" "a < length h" using t by (auto elim: tree_RefE)
  have "\<exists>hr v kvs0. h' = objectAssign hr (Ref a) v \<and> cellAt hr a = CObj kvs0 \<and>
      set (map fst kvs) \<subseteq> set (map fst kvs0) \<and> a < length hr"
  proof (cases "itemEntryPoints opts")
    case None
    from run None obtain res where w: "walkMutate fuel isAnyLink ?M (removeUnresolved opts) h (Ref a) = Inr res"
        "h' = objectAssign (snd res) (Ref a) (fst res)"
      by (auto simp: resolveItem_def makeEntryObject_def bnd_eq_Inr)
    show ?thesis
    proof (cases "isAnyLink h (Ref a)")
      case True
      then have "snd res = h" using w(1) by (rule walkMutate_link)
      then show ?thesis using w(2) c a(2)
        by (intro exI [of _ h] exI [of _ "fst res"] exI [of _ kvs]) simp
    next
      case False
      have "fst res = Ref a \<and>
         (\<exists>kvs'. cellAt (snd res) a = CObj kvs' \<and> set (map fst kvs') \<subseteq> set (map fst kvs) \<and>
            (\<not> removeUnresolved opts \<longrightarrow> map fst kvs' = map fst kvs))"
        using normalizeLink_no_RangeError t c False w(1) by (rule walkMutate_fields)
      then obtain kvs0 where k: "cellAt (snd res) a = CObj kvs0" "map fst kvs0 = map fst kvs"
        using o None by auto
      have "frames h A (snd res)" using normalizeLink_no_RangeError t w(1) by (rule walkMutate_frames_Inr)
      then have "a < length (snd res)" using a(2) by (simp add: frames_def)
      then show ?thesis using w(2) k
        by (intro exI [of _ "snd res"] exI [of _ "fst res"] exI [of _ kvs0]) simp
    qed
  next
    case (Some es)
    let ?L = "length h"
    let ?h1 = "h @ [entryCell h (Ref a) es (CObj [])]"
    obtain B where B: "tree d ?h1 (Ref ?L) (insert ?L B)" "B \<subseteq> A - {a}"
      using entry_object_tree [OF t] by blast
    from run Some obtain res where w: "walkMutate fuel isAnyLink ?M (removeUnresolved opts) ?h1 (Ref ?L) = Inr res"
        "h' = objectAssign (snd res) (Ref a) (fst res)"
      by (auto simp: resolveItem_def makeEntryObject_Some bnd_eq_Inr)
    have f2: "frames ?h1 (insert ?L B) (snd res)"
      using normalizeLink_no_RangeError B(1) w(1) by (rule walkMutate_frames_Inr)
    have "cellAt (snd res) a = cellAt ?h1 a"
      using f2 by (rule cellAt_frames) (use a(2) B(2) in auto)
    then have ca: "cellAt (snd res) a = CObj kvs" using c a(2) by (simp add: cellAt_def nth_append)
    have la: "a < length (snd res)" using f2 a(2) by (simp add: frames_def)
    show ?thesis using w(2) ca la
      by (intro exI [of _ "snd res"] exI [of _ "fst res"] exI [of _ kvs]) simp
  qed
  then obtain hr v kvs0 where r: "h' = objectAssign hr (Ref a) v"
      "cellAt hr a = CObj kvs0" "set (map fst kvs) \<subseteq> set (map fst kvs0)" "a < length hr"
    by blast
  obtain kvs' where "cellAt h' a = CObj kvs'" "set (map fst kvs0) \<subseteq> set (map fst kvs')"
    using objectAssign_superset [OF r(2,4), of v] r(1) by auto
  then show ?thesis using r(3) by blast
qed

lemma resolveItem_deletes:
  assumes t: "tree d h (Ref a) A"
    and o: "removeUnresolved opts" "itemEntryPoints opts = None"
    and l: "linkAt h (Ref a) [k] K" and mK: "m K = None"
    and run: "resolveItem S fuel opts m h (Ref a) = Inr h'"
  shows "\<exists>kvs'. cellAt h' a = CObj kvs' \<and> map_of kvs' k = None"
proof -
  let ?M = "normalizeLink S m True"
  from l obtain kvs x where r: "cellAt h a = CObj kvs" "map_of kvs k = Some x" "linkAt h x [] K"
      "\<not> isAnyLink h (Ref a)"
    by (auto split: cell.splits option.splits)
  from t obtain e B where tn: "d = Suc e" "a < length h" "distinct (ownKeys (cellAt h a))"
      "trees e h (cellValues (cellAt h a)) B" "a \<notin> B" "A = insert a B"
    by (auto elim: tree_RefE)
  from run o obtain res where w: "walkMutate fuel isAnyLink ?M True h (Ref a) = Inr res"
      "h' = objectAssign (snd res) (Ref a) (fst res)"
    by (auto simp: resolveItem_def makeEntryObject_def bnd_eq_Inr)
  obtain n where n: "fuel = Suc n" using w(1) by (cases fuel) auto
  from w(1) r(4) obtain hk where wk: "walkKeys n isAnyLink ?M True h a (ownKeys (cellAt h a)) = Inr hk"
      "res = cleanUpLinks hk (Ref a)"
    unfolding n by (auto simp: bnd_eq_Inr)
  have M: "\<And>h x. ?M h x \<noteq> Inl RangeError" by (rule normalizeLink_no_RangeError)
  have IHp: "resolvedAt (snd res) (fst res) [] Unres A1"
    if q: "tree e h x A1" "linkAt h x [] K" "walkMutate n isAnyLink ?M True h x = Inr res"
    for h x A1 res
  proof -
    obtain n' where n': "n = Suc n'" using q(3) by (cases n) auto
    have "isAnyLink h x" using q(2) by (simp add: isAnyLink_def)
    moreover have "?M h x = Inr Unres" using q(2) mK by (rule linkAt_unresolved)
    ultimately have "res = (Unres, h)" using q(3) unfolding n' by auto
    then show ?thesis by simp
  qed
  have tr: "trees e h (reads (cellAt h a) (ownKeys (cellAt h a))) B"
    using tn(3,4) by (simp add: reads_ownKeys)
  have "(k, x) \<in> set kvs" using r(2) by (rule map_of_SomeD)
  then have "k \<in> fst ` set kvs" by force
  then have mem: "Name k \<in> set (ownKeys (cellAt h a))" using r(1) by (simp add: image_image image_iff)
  have rk: "readKey (cellAt h a) (Name k) = Some x" using r(1,2) by simp
  have "\<exists>x' A'. readKey (cellAt hk a) (Name k) = Some x' \<and> A' \<subseteq> B \<and> resolvedAt hk x' [] Unres A'"
    using M IHp tn(3) mem tr tn(5) tn(2) rk r(3) wk(1) by (rule walkKeys_resolves)
  then have x': "readKey (cellAt hk a) (Name k) = Some Unres" by auto
  have "\<exists>kvs'. cellAt hk a = CObj kvs' \<and> map fst kvs' = map fst kvs"
    using M tn(3) tr tn(5,2) r(1) wk(1) by (rule walkKeys_fields)
  then obtain kvs1 where k1: "cellAt hk a = CObj kvs1" "map fst kvs1 = map fst kvs" by blast
  have "distinct (map fst kvs)" using tn(3) r(1) by (simp add: distinct_map inj_on_def)
  then have dk: "distinct (map fst kvs1)" using k1(2) by simp
  have lk: "a < length hk"
    using walkKeys_frames_Inr [OF M tn(3) tr tn(5,2) wk(1)] tn(2) by (simp add: frames_def)
  have m1: "map_of kvs1 k = Some Unres" using x' k1(1) by simp
  have "map_of (filter (\<lambda>kv. snd kv \<noteq> Unres) kvs1) k = None"
    using dk m1 by (rule map_of_filter_dropped) simp
  moreover have "res = (Ref a, hk[a := CObj (filter (\<lambda>kv. snd kv \<noteq> Unres) kvs1)])"
    using wk(2) k1(1) by (simp add: cleanUpLinks_def)
  ultimately show ?thesis using w(2) lk by (simp add: objectAssign_self cellAt_def)
qed

lemma item_setup:
  assumes wf: "wellFormedResponse resp" and its: "items resp = Some its"
    and c: "copied resp = (ivs, incs, h)"
    and i: "i < length its" and obj: "its ! i = JObj fs"
    and run: "resolveResponse S fuel resp opts = Inr (out, h')"
  shows "\<exists>a kvs A es C pairs. ivs ! i = Ref a \<and> a < length h \<and> cellAt h a = CObj kvs \<and>
     representsFields h kvs fs \<and> tree (responseDepth resp) h (Ref a) A \<and>
     trees (responseDepth resp) h es C \<and> (\<forall>e \<in> set es. isRef e) \<and>
     keepEntities h (ivs @ concat incs) = Inr es \<and> entityPairs S h es = Inr pairs \<and>
     resolveAll S fuel opts (newMap pairs) h es = Inr h' \<and> out = ivs \<and>
     (if truthy (optp h (Ref a) ''sys'') then Ref a \<in> set es else A \<inter> C = {})"
proof -
  let ?d = "responseDepth resp"
  obtain B where B: "trees ?d h (ivs @ concat incs) B" "representsList h ivs its"
    using copied_shape [OF wf its c] by blast
  have n: "length ivs = length its" "represents h (ivs ! i) (its ! i)"
    using representsList_nth [OF B(2)] i by auto
  from n(2) obtain a kvs where a: "ivs ! i = Ref a" "a < length h" "h ! a = CObj kvs"
      "representsFields h kvs fs"
    unfolding obj by (auto split: jv.splits cell.splits)
  have ca: "cellAt h a = CObj kvs" using a(2,3) by (simp add: cellAt_def)
  have mem: "Ref a \<in> set (ivs @ concat incs)" using i n(1) a(1) by (metis nth_mem set_append UnI1)
  obtain A where A: "tree ?d h (Ref a) A" using trees_member [OF B(1) mem] by blast
  from run have rs: "resolveStore S fuel opts h ivs incs = Inr (out, h')"
    using resolveResponse_copied [OF its c] by simp
  then obtain es pairs where k: "keepEntities h (ivs @ concat incs) = Inr es"
      "entityPairs S h es = Inr pairs" "resolveAll S fuel opts (newMap pairs) h es = Inr h'" "out = ivs"
    by (auto simp: resolveStore_def bnd_eq_Inr)
  have es: "es = filter (\<lambda>e. truthy (optp h e ''sys'')) (ivs @ concat incs)"
    using k(1) by (rule keepEntities_filter)
  obtain C where C: "trees ?d h es C" unfolding es using trees_filter [OF B(1)] by blast
  have "\<forall>e \<in> set es. truthy (optp h e ''sys'')" unfolding es by (simp only: set_filter) blast
  then have r: "\<forall>e \<in> set es. isRef e" using truthy_sys_isRef by blast
  have m: "if truthy (optp h (Ref a) ''sys'') then Ref a \<in> set es else A \<inter> C = {}"
  proof (cases "truthy (optp h (Ref a) ''sys'')")
    case True
    then show ?thesis unfolding es using mem by simp
  next
    case False
    have "A \<inter> C = {}" using B(1) mem A C [unfolded es] False by (rule trees_filter_apart)
    then show ?thesis using False by simp
  qed
  show ?thesis using a(1,2) ca a(4) A C r k m by blast
qed

lemma keys_kept:
  assumes wf: "wellFormedResponse resp" and its: "items resp = Some its"
    and c: "copied resp = (ivs, incs, h)"
    and i: "i < length its" and obj: "its ! i = JObj fs"
    and o: "itemEntryPoints opts = None \<longrightarrow> \<not> removeUnresolved opts"
    and run: "resolveResponse S fuel resp opts = Inr (out, h')"
  shows "\<exists>a kvs. ivs ! i = Ref a \<and> cellAt h' a = CObj kvs \<and> set (map fst fs) \<subseteq> set (map fst kvs)"
proof -
  let ?d = "responseDepth resp"
  obtain a kvs A es C pairs where s: "ivs ! i = Ref a" "a < length h" "cellAt h a = CObj kvs"
     "representsFields h kvs fs" "tree ?d h (Ref a) A" "trees ?d h es C" "\<forall>e \<in> set es. isRef e"
     "resolveAll S fuel opts (newMap pairs) h es = Inr h'"
     "if truthy (optp h (Ref a) ''sys'') then Ref a \<in> set es else A \<inter> C = {}"
    using item_setup [OF wf its c i obj run] by blast
  have aA: "a \<in> A" using s(5) by (rule tree_root)
  have fk: "map fst kvs = map fst fs" using s(4) by (rule representsFields_keys)
  have "\<exists>kvs'. cellAt h' a = CObj kvs' \<and> set (map fst kvs) \<subseteq> set (map fst kvs')"
  proof (cases "Ref a \<in> set es")
    case True
    obtain h0 h1 where r: "frames h (- A) h0" "resolveItem S fuel opts (newMap pairs) h0 (Ref a) = Inr h1"
        "frames h1 (- A) h'"
      using resolveAll_at [OF s(6,7) True s(5,8)] by blast
    have t0: "tree ?d h0 (Ref a) A" using r(1) s(5) by (rule tree_frames(1)) simp
    have "cellAt h0 a = cellAt h a" using r(1) s(2) by (rule cellAt_frames) (use aA in simp)
    then have c0: "cellAt h0 a = CObj kvs" using s(3) by simp
    obtain kvs1 where k1: "cellAt h1 a = CObj kvs1" "set (map fst kvs) \<subseteq> set (map fst kvs1)"
      using resolveItem_keys [OF t0 c0 o r(2)] by blast
    have "frames h0 A h1" using t0 r(2) by (rule resolveItem_frames_Inr)
    then have "a < length h1" using r(1) s(2) by (simp add: frames_def)
    with r(3) have "cellAt h' a = cellAt h1 a" by (rule cellAt_frames) (use aA in simp)
    then show ?thesis using k1 by simp
  next
    case False
    then have d: "A \<inter> C = {}" using s(9) by (simp split: if_splits)
    have "frames h C h'" using s(6,7,8) by (rule resolveAll_frames_Inr)
    then have "cellAt h' a = cellAt h a" using s(2) by (rule cellAt_frames) (use d aA in auto)
    then show ?thesis using s(3) by simp
  qed
  then show ?thesis using s(1) fk by auto
qed

lemma field_deleted:
  assumes wf: "wellFormedResponse resp" and its: "items resp = Some its"
    and c: "copied resp = (ivs, incs, h)"
    and i: "i < length its" and obj: "its ! i = JObj fs"
    and o: "removeUnresolved opts" "itemEntryPoints opts = None"
    and id: "hasIdentity (its ! i)"
    and l: "linkAt h (ivs ! i) [k] K"
    and m: "entityMapOf S resp = Inr m" "m K = None"
    and run: "resolveResponse S fuel resp opts = Inr (out, h')"
  shows "\<exists>a kvs. ivs ! i = Ref a \<and> cellAt h' a = CObj kvs \<and> map_of kvs k = None"
proof -
  let ?d = "responseDepth resp"
  obtain a kvs A es C pairs where s: "ivs ! i = Ref a" "a < length h" "cellAt h a = CObj kvs"
     "representsFields h kvs fs" "tree ?d h (Ref a) A" "trees ?d h es C" "\<forall>e \<in> set es. isRef e"
     "keepEntities h (ivs @ concat incs) = Inr es" "entityPairs S h es = Inr pairs"
     "resolveAll S fuel opts (newMap pairs) h es = Inr h'"
     "if truthy (optp h (Ref a) ''sys'') then Ref a \<in> set es else A \<inter> C = {}"
    using item_setup [OF wf its c i obj run] by blast
  have aA: "a \<in> A" using s(5) by (rule tree_root)
  have mm: "m = newMap pairs" using m(1) c s(8,9) by (simp add: entityMapOf_def)
  obtain B where B: "representsList h ivs its" using copied_shape [OF wf its c] by blast
  have "represents h (ivs ! i) (its ! i)" using representsList_nth [OF B] i by auto
  then have "truthy (optp h (Ref a) ''sys'')" using represents_identity id s(1) by auto
  then have mem: "Ref a \<in> set es" using s(11) by simp
  obtain h0 h1 where r: "frames h (- A) h0" "resolveItem S fuel opts (newMap pairs) h0 (Ref a) = Inr h1"
      "frames h1 (- A) h'"
    using resolveAll_at [OF s(6,7) mem s(5,10)] by blast
  have t0: "tree ?d h0 (Ref a) A" using r(1) s(5) by (rule tree_frames(1)) simp
  have l0: "linkAt h0 (Ref a) [k] K" using s(5) l [unfolded s(1)] r(1) by (rule linkAt_frames) simp
  obtain kvs1 where k1: "cellAt h1 a = CObj kvs1" "map_of kvs1 k = None"
    using resolveItem_deletes [OF t0 o l0 m(2) [unfolded mm] r(2)] by blast
  have "frames h0 A h1" using t0 r(2) by (rule resolveItem_frames_Inr)
  then have "a < length h1" using r(1) s(2) by (simp add: frames_def)
  with r(3) have "cellAt h' a = cellAt h1 a" by (rule cellAt_frames) (use aA in simp)
  then show ?thesis using k1 s(1) by simp
qed

text \<open>
  C9, as the claim states it, fails in three places.  With pruning on and no entry points, the
  top-level field \<open>ref\<close> of a record, which holds a link to a record that is not in the
  response, is deleted from the record: the copy had the keys \<open>sys\<close>, \<open>ref\<close> and
  \<open>title\<close>, the output has \<open>sys\<close> and \<open>title\<close>.  A record that is itself a link node
  is replaced at its root and its fields are not walked: without entry points \<open>fields.x\<close> is
  still the link placeholder after the run although its key \<open>Entry!b\<close> is in the index.
  And with the entry point \<open>sys\<close> such a record takes over the fields of its target, so its
  top-level field \<open>other\<close>, which the entry points do not name, changes from \<open>mine\<close> to
  \<open>theirs\<close>.
\<close>

theorem record_fields_not_as_claimed:
  "fst (copied danglingField) = [Ref 3] \<and>
   ownKeys (cellAt (snd (snd (copied danglingField))) 3) = [Name ''sys'', Name ''ref'', Name ''title''] \<and>
   resolveResponse objectString 5 danglingField prune = Inr ([Ref 3], danglingPruned) \<and>
   ownKeys (cellAt danglingPruned 3) = [Name ''sys'', Name ''title''] \<and>
   fst (copied linkRecord) = [Ref 4, Ref 6] \<and>
   isLink (snd (snd (copied linkRecord))) (Ref 4) \<and>
   entityPairs objectString (snd (snd (copied linkRecord))) [Ref 4, Ref 6] =
     Inr [(''Link!b'', Ref 4), (''Entry!b'', Ref 6)] \<and>
   pathAt (snd (snd (copied linkRecord))) (Ref 4) [Name ''fields'', Name ''x''] = Ref 2 \<and>
   optp (snd (snd (copied linkRecord))) (Ref 4) ''other'' = Str ''mine'' \<and>
   (case resolveResponse objectString 5 linkRecord keepAll of
      Inr (out, h') \<Rightarrow>
        out = [Ref 4, Ref 6] \<and> pathAt h' (Ref 4) [Name ''fields'', Name ''x''] = Ref 2 \<and>
        isLink h' (Ref 2)
    | Inl e \<Rightarrow> False) \<and>
   (case resolveResponse objectString 5 linkRecord onlySys of
      Inr (out, h') \<Rightarrow> out = [Ref 4, Ref 6] \<and> optp h' (Ref 4) ''other'' = Str ''theirs''
    | Inl e \<Rightarrow> False)"
  by code_simp

text \<open>
  C9, amended.  For an item of a well-formed response that is an object, with more stack than
  the response is deep the run does not exhaust it, and in every result:

  \<^item> a link at a field path of a record with an identity block that is not itself a link node,
    whose key is in the index and whose first field is walked (any field without entry points,
    a named field with them), is replaced by the record of the index, whatever the options;

  \<^item> with entry points, every top-level field of a record that is not itself a link node which
    they do not name still reads back as the JSON value it had, link placeholders included;

  \<^item> with entry points given or pruning off, every record, link node or not, has all the
    top-level keys it had, and a record that is not itself a link node has exactly those, in
    their order (a name of the entry points that the record lacks is not added);

  \<^item> with pruning on and no entry points, a top-level field of a record with an identity block
    that holds a link whose key is not in the index is deleted from the record.
\<close>

theorem entry_points_frame:
  assumes "wellFormedResponse resp" and "items resp = Some its" and "copied resp = (ivs, incs, h)"
    and "i < length its" and "its ! i = JObj fs"
    and "responseDepth resp < fuel"
  shows "resolveResponse S fuel resp opts \<noteq> Inl RangeError \<and>
     (\<forall>out h'. resolveResponse S fuel resp opts = Inr (out, h') \<longrightarrow>
        out = ivs \<and>
        (\<exists>a. out ! i = Ref a \<and>
           (\<forall>k p K m E. hasIdentity (its ! i) \<longrightarrow> linkAt h (ivs ! i) (k # p) K \<longrightarrow>
              entityMapOf S resp = Inr m \<longrightarrow> m K = Some E \<longrightarrow>
              (case itemEntryPoints opts of None \<Rightarrow> True | Some eps \<Rightarrow> k \<in> set eps) \<longrightarrow>
              pathAt h' (Ref a) (map Name (k # p)) = E) \<and>
           (\<forall>eps k x. itemEntryPoints opts = Some eps \<longrightarrow> \<not> isAnyLink h (ivs ! i) \<longrightarrow>
              k \<notin> set eps \<longrightarrow> map_of fs k = Some x \<longrightarrow> represents h' (optp h' (Ref a) k) x) \<and>
           ((itemEntryPoints opts = None \<longrightarrow> \<not> removeUnresolved opts) \<longrightarrow>
              set (map Name (map fst fs)) \<subseteq> set (ownKeys (cellAt h' a)) \<and>
              (\<not> isAnyLink h (ivs ! i) \<longrightarrow> ownKeys (cellAt h' a) = map Name (map fst fs))) \<and>
           (\<forall>k K m. removeUnresolved opts \<longrightarrow> itemEntryPoints opts = None \<longrightarrow>
              hasIdentity (its ! i) \<longrightarrow> linkAt h (ivs ! i) [k] K \<longrightarrow>
              entityMapOf S resp = Inr m \<longrightarrow> m K = None \<longrightarrow>
              Name k \<notin> set (ownKeys (cellAt h' a)))))"
proof (intro conjI allI impI)
  show "resolveResponse S fuel resp opts \<noteq> Inl RangeError"
    using assms(1,6) by (rule resolveResponse_room)
next
  fix out h' assume run: "resolveResponse S fuel resp opts = Inr (out, h')"
  obtain a where a: "ivs ! i = Ref a" "out = ivs"
    using item_setup [OF assms(1-5) run] by blast
  show "out = ivs" by (rule a(2))
  show "\<exists>a. out ! i = Ref a \<and>
           (\<forall>k p K m E. hasIdentity (its ! i) \<longrightarrow> linkAt h (ivs ! i) (k # p) K \<longrightarrow>
              entityMapOf S resp = Inr m \<longrightarrow> m K = Some E \<longrightarrow>
              (case itemEntryPoints opts of None \<Rightarrow> True | Some eps \<Rightarrow> k \<in> set eps) \<longrightarrow>
              pathAt h' (Ref a) (map Name (k # p)) = E) \<and>
           (\<forall>eps k x. itemEntryPoints opts = Some eps \<longrightarrow> \<not> isAnyLink h (ivs ! i) \<longrightarrow>
              k \<notin> set eps \<longrightarrow> map_of fs k = Some x \<longrightarrow> represents h' (optp h' (Ref a) k) x) \<and>
           ((itemEntryPoints opts = None \<longrightarrow> \<not> removeUnresolved opts) \<longrightarrow>
              set (map Name (map fst fs)) \<subseteq> set (ownKeys (cellAt h' a)) \<and>
              (\<not> isAnyLink h (ivs ! i) \<longrightarrow> ownKeys (cellAt h' a) = map Name (map fst fs))) \<and>
           (\<forall>k K m. removeUnresolved opts \<longrightarrow> itemEntryPoints opts = None \<longrightarrow>
              hasIdentity (its ! i) \<longrightarrow> linkAt h (ivs ! i) [k] K \<longrightarrow>
              entityMapOf S resp = Inr m \<longrightarrow> m K = None \<longrightarrow>
              Name k \<notin> set (ownKeys (cellAt h' a)))"
  proof (intro exI [of _ a] conjI allI impI)
    show "out ! i = Ref a" using a by simp
  next
    fix k p K m E
    assume l: "hasIdentity (its ! i)" "linkAt h (ivs ! i) (k # p) K" "entityMapOf S resp = Inr m"
      "m K = Some E" "case itemEntryPoints opts of None \<Rightarrow> True | Some eps \<Rightarrow> k \<in> set eps"
    obtain B where B: "representsList h ivs its" using copied_shape [OF assms(1,2,3)] by blast
    have n: "length ivs = length its" "represents h (ivs ! i) (its ! i)"
      using representsList_nth [OF B] assms(4) by auto
    have mem: "ivs ! i \<in> set (ivs @ concat incs)" using assms(4) n(1) by simp
    have sys: "truthy (optp h (ivs ! i) ''sys'')" using represents_identity [OF n(2)] l(1) by simp
    have "out = ivs \<and> pathAt h' (ivs ! i) (map Name (k # p)) = E"
      using assms(1,2,3) mem sys l(2,3,4,5) run by (rule link_resolved)
    then show "pathAt h' (Ref a) (map Name (k # p)) = E" using a(1) by simp
  next
    fix eps k x
    assume q: "itemEntryPoints opts = Some eps" "\<not> isAnyLink h (ivs ! i)" "k \<notin> set eps"
      "map_of fs k = Some x"
    have o: "itemEntryPoints opts = None \<longrightarrow> \<not> removeUnresolved opts" using q(1) by simp
    obtain b kvs where f: "out ! i = Ref b" "cellAt h' b = CObj kvs"
        "\<forall>eps k x. itemEntryPoints opts = Some eps \<longrightarrow> k \<notin> set eps \<longrightarrow> map_of fs k = Some x \<longrightarrow>
           (\<exists>v. map_of kvs k = Some v \<and> represents h' v x)"
      using fields_kept [OF assms(1-5) q(2) o run] by blast
    have ba: "b = a" using f(1) a by simp
    obtain v where v: "map_of kvs k = Some v" "represents h' v x" using f(3) q(1,3,4) by blast
    have "optp h' (Ref a) k = v" using f(2) v(1) unfolding ba by (simp add: optp_def readAt_def)
    then show "represents h' (optp h' (Ref a) k) x" using v(2) by simp
  next
    assume o: "itemEntryPoints opts = None \<longrightarrow> \<not> removeUnresolved opts"
    obtain b kvs where f: "ivs ! i = Ref b" "cellAt h' b = CObj kvs"
        "set (map fst fs) \<subseteq> set (map fst kvs)"
      using keys_kept [OF assms(1-5) o run] by blast
    have ba: "b = a" using f(1) a by simp
    have "Name ` set (map fst fs) \<subseteq> Name ` set (map fst kvs)" using f(3) by blast
    then show "set (map Name (map fst fs)) \<subseteq> set (ownKeys (cellAt h' a))"
      using f(2) unfolding ba by (simp add: image_image)
  next
    assume o: "itemEntryPoints opts = None \<longrightarrow> \<not> removeUnresolved opts"
      and nl: "\<not> isAnyLink h (ivs ! i)"
    obtain b kvs where f: "out ! i = Ref b" "cellAt h' b = CObj kvs" "map fst kvs = map fst fs"
      using fields_kept [OF assms(1-5) nl o run] by blast
    have ba: "b = a" using f(1) a by simp
    have "ownKeys (cellAt h' a) = map Name (map fst kvs)" using f(2) unfolding ba by simp
    then show "ownKeys (cellAt h' a) = map Name (map fst fs)" unfolding f(3) .
  next
    fix k K m
    assume q: "removeUnresolved opts" "itemEntryPoints opts = None" "hasIdentity (its ! i)"
      "linkAt h (ivs ! i) [k] K" "entityMapOf S resp = Inr m" "m K = None"
    obtain b kvs where f: "ivs ! i = Ref b" "cellAt h' b = CObj kvs" "map_of kvs k = None"
      using field_deleted [OF assms(1-5) q run] by blast
    have ba: "b = a" using f(1) a by simp
    have "k \<notin> fst ` set kvs" using f(3) by (simp add: map_of_eq_None_iff)
    then show "Name k \<notin> set (ownKeys (cellAt h' a))" using f(2) unfolding ba by auto
  qed
qed

text \<open>
  The record of \<open>withMetadata\<close> under the entry points \<open>fields\<close> and \<open>absent\<close> with
  pruning: it keeps its three keys and gains none, \<open>metadata\<close> still holds its link
  placeholder, and \<open>fields.b\<close> is the second record.  The record of \<open>danglingField\<close> under
  pruning without entry points: its field \<open>ref\<close> is gone.
\<close>

theorem entry_points_frame_witness:
  "responseDepth withMetadata < 5 \<and>
   resolveResponse objectString 5 withMetadata onlyFields = Inr ([Ref 7, Ref 9], metadataKept) \<and>
   ownKeys (cellAt metadataKept 7) = [Name ''sys'', Name ''fields'', Name ''metadata''] \<and>
   represents metadataKept (optp metadataKept (Ref 7) ''metadata'') (JObj [(''ref'', linkTo ''Entry'' ''b'')]) \<and>
   pathAt metadataKept (Ref 7) [Name ''fields'', Name ''b''] = Ref 9 \<and>
   responseDepth danglingField < 5 \<and>
   resolveResponse objectString 5 danglingField prune = Inr ([Ref 3], danglingPruned) \<and>
   Name ''ref'' \<notin> set (ownKeys (cellAt danglingPruned 3))"
proof -
  let ?fs = "[(''sys'', JObj [(''type'', JStr ''Entry''), (''id'', JStr ''a'')]),
              (''fields'', JObj [(''b'', linkTo ''Entry'' ''b'')]),
              (''metadata'', JObj [(''ref'', linkTo ''Entry'' ''b'')])]"
  let ?its = "[plainEntry ''Entry'' ''a''
                 [(''fields'', JObj [(''b'', linkTo ''Entry'' ''b'')]),
                  (''metadata'', JObj [(''ref'', linkTo ''Entry'' ''b'')])],
               plainEntry ''Entry'' ''b'' []]"
  let ?m = "newMap [(''Entry!a'', Ref 7), (''Entry!b'', Ref 9)]"
  have 1: "wellFormedResponse withMetadata" by code_simp
  have 2: "items withMetadata = Some ?its" by (simp add: withMetadata_def)
  have 3: "copied withMetadata = ([Ref 7, Ref 9], [], metadataCopied)" by code_simp
  have 4: "(0::nat) < length ?its" by simp
  have 5: "?its ! 0 = JObj ?fs" by (simp add: plainEntry_def)
  have 6: "\<not> isAnyLink metadataCopied ([Ref 7, Ref 9] ! 0)" by code_simp
  have 7: "itemEntryPoints onlyFields = None \<longrightarrow> \<not> removeUnresolved onlyFields"
    by (simp add: onlyFields_def)
  have 8: "responseDepth withMetadata < 5" by code_simp
  have run: "resolveResponse objectString 5 withMetadata onlyFields = Inr ([Ref 7, Ref 9], metadataKept)"
    by code_simp
  note T = entry_points_frame [OF 1 2 3 4 5 8, of objectString onlyFields]
  note T' = T [THEN conjunct2, THEN spec, THEN spec, THEN mp, OF run, THEN conjunct2]
  from T' obtain a where a: "[Ref 7, Ref 9] ! 0 = Ref a"
      "\<forall>k p K m E. hasIdentity (?its ! 0) \<longrightarrow> linkAt metadataCopied ([Ref 7, Ref 9] ! 0) (k # p) K \<longrightarrow>
         entityMapOf objectString withMetadata = Inr m \<longrightarrow> m K = Some E \<longrightarrow>
         (case itemEntryPoints onlyFields of None \<Rightarrow> True | Some eps \<Rightarrow> k \<in> set eps) \<longrightarrow>
         pathAt metadataKept (Ref a) (map Name (k # p)) = E"
      "\<forall>eps k x. itemEntryPoints onlyFields = Some eps \<longrightarrow> \<not> isAnyLink metadataCopied ([Ref 7, Ref 9] ! 0) \<longrightarrow>
         k \<notin> set eps \<longrightarrow> map_of ?fs k = Some x \<longrightarrow>
         represents metadataKept (optp metadataKept (Ref a) k) x"
      "(itemEntryPoints onlyFields = None \<longrightarrow> \<not> removeUnresolved onlyFields) \<longrightarrow>
         set (map Name (map fst ?fs)) \<subseteq> set (ownKeys (cellAt metadataKept a)) \<and>
         (\<not> isAnyLink metadataCopied ([Ref 7, Ref 9] ! 0) \<longrightarrow>
            ownKeys (cellAt metadataKept a) = map Name (map fst ?fs))"
    by (elim exE conjE) (rule that; assumption)
  have a7: "a = 7" using a(1) by simp
  have "ownKeys (cellAt metadataKept a) = map Name (map fst ?fs)"
    by (rule a(4) [THEN mp, OF 7, THEN conjunct2, THEN mp, OF 6])
  then have keys: "ownKeys (cellAt metadataKept 7) = [Name ''sys'', Name ''fields'', Name ''metadata'']"
    unfolding a7 by simp
  have ep: "itemEntryPoints onlyFields = Some [''fields'', ''absent'']"
    "''metadata'' \<notin> set [''fields'', ''absent'']"
    "map_of ?fs ''metadata'' = Some (JObj [(''ref'', linkTo ''Entry'' ''b'')])"
    by (simp_all add: onlyFields_def)
  have meta: "represents metadataKept (optp metadataKept (Ref 7) ''metadata'')
      (JObj [(''ref'', linkTo ''Entry'' ''b'')])"
    using a(3) [THEN spec, THEN spec, THEN spec, THEN mp, OF ep(1), THEN mp, OF 6, THEN mp, OF ep(2),
        THEN mp, OF ep(3)]
    unfolding a7 .
  have i: "hasIdentity (?its ! 0)" by code_simp
  have l: "linkAt metadataCopied ([Ref 7, Ref 9] ! 0) (''fields'' # [''b'']) ''Entry!b''" by code_simp
  have k: "keepEntities metadataCopied ([Ref 7, Ref 9] @ concat []) = Inr [Ref 7, Ref 9]" by code_simp
  have p: "entityPairs objectString metadataCopied [Ref 7, Ref 9] =
      Inr [(''Entry!a'', Ref 7), (''Entry!b'', Ref 9)]" by code_simp
  have m: "entityMapOf objectString withMetadata = Inr ?m"
    using k by (simp add: entityMapOf_def 3 p del: keepEntities.simps entityPairs.simps)
  have mk: "?m ''Entry!b'' = Some (Ref 9)" by (simp add: newMap_def)
  have e: "case itemEntryPoints onlyFields of None \<Rightarrow> True | Some eps \<Rightarrow> ''fields'' \<in> set eps"
    by (simp add: onlyFields_def)
  have "pathAt metadataKept (Ref a) (map Name (''fields'' # [''b''])) = Ref 9"
    by (rule a(2) [THEN spec, THEN spec, THEN spec, THEN spec, THEN spec, THEN mp, OF i, THEN mp, OF l,
        THEN mp, OF m, THEN mp, OF mk, THEN mp, OF e])
  then have path: "pathAt metadataKept (Ref 7) [Name ''fields'', Name ''b''] = Ref 9"
    unfolding a7 by simp
  let ?gs = "[(''sys'', JObj [(''type'', JStr ''Entry''), (''id'', JStr ''a'')]),
              (''ref'', linkTo ''Entry'' ''missing''), (''title'', JStr ''t'')]"
  let ?jts = "[plainEntry ''Entry'' ''a''
                 [(''ref'', linkTo ''Entry'' ''missing''), (''title'', JStr ''t'')]]"
  let ?g = "danglingCopied"
  let ?n = "newMap [(''Entry!a'', Ref 3)]"
  have d1: "wellFormedResponse danglingField" by code_simp
  have d2: "items danglingField = Some ?jts" by (simp add: danglingField_def)
  have d3: "copied danglingField = ([Ref 3], [], ?g)" by code_simp
  have d4: "(0::nat) < length ?jts" by simp
  have d5: "?jts ! 0 = JObj ?gs" by (simp add: plainEntry_def)
  have d8: "responseDepth danglingField < 5" by code_simp
  have drun: "resolveResponse objectString 5 danglingField prune = Inr ([Ref 3], danglingPruned)"
    by code_simp
  note D = entry_points_frame [OF d1 d2 d3 d4 d5 d8, of objectString prune]
  note D' = D [THEN conjunct2, THEN spec, THEN spec, THEN mp, OF drun, THEN conjunct2]
  from D' obtain b where b: "[Ref 3] ! 0 = Ref b"
      "\<forall>k K m. removeUnresolved prune \<longrightarrow> itemEntryPoints prune = None \<longrightarrow>
         hasIdentity (?jts ! 0) \<longrightarrow> linkAt ?g ([Ref 3] ! 0) [k] K \<longrightarrow>
         entityMapOf objectString danglingField = Inr m \<longrightarrow> m K = None \<longrightarrow>
         Name k \<notin> set (ownKeys (cellAt danglingPruned b))"
    by (elim exE conjE) (rule that; assumption)
  have b3: "b = 3" using b(1) by simp
  have o: "removeUnresolved prune" "itemEntryPoints prune = None" by (simp_all add: prune_def)
  have di: "hasIdentity (?jts ! 0)" by code_simp
  have dl: "linkAt ?g ([Ref 3] ! 0) [''ref''] ''Entry!missing''" by code_simp
  have dk: "keepEntities ?g ([Ref 3] @ concat []) = Inr [Ref 3]" by code_simp
  have dp: "entityPairs objectString ?g [Ref 3] = Inr [(''Entry!a'', Ref 3)]" by code_simp
  have dm: "entityMapOf objectString danglingField = Inr ?n"
    using dk by (simp add: entityMapOf_def d3 dp del: keepEntities.simps entityPairs.simps)
  have dn: "?n ''Entry!missing'' = None" by (simp add: newMap_def)
  have gone: "Name ''ref'' \<notin> set (ownKeys (cellAt danglingPruned 3))"
    using b(2) [THEN spec, THEN spec, THEN spec, THEN mp, OF o(1), THEN mp, OF o(2), THEN mp, OF di,
        THEN mp, OF dl, THEN mp, OF dm, THEN mp, OF dn]
    unfolding b3 .
  show ?thesis by (intro conjI 8 run keys meta path d8 drun gone)
qed

end
